theory Spec2Isabelle
  imports Complex_Main "HOL-Library.List_Lexorder" "HOL-Library.Sublist"
begin

section \<open>JavaScript strings\<close>

text \<open>
  A JavaScript string is a sequence of UTF-16 code units; a code unit is modelled by its
  number, so \<open>U+0301\<close> is \<open>769\<close>. \<open>js\<close> turns an ASCII literal into such a string.
\<close>

type_synonym jstring = "nat list"

definition js :: "string \<Rightarrow> jstring" where
  "js s = map of_char s"

text \<open>
  The built-ins whose result depends on the Unicode tables (\<open>String.prototype.normalize\<close>
  with form NFKD, \<open>toLowerCase\<close>, \<open>toUpperCase\<close>) are parameters of the model.
\<close>

record unicode =
  nfkd :: "jstring \<Rightarrow> jstring"
  toLowerCase :: "jstring \<Rightarrow> jstring"
  toUpperCase :: "jstring \<Rightarrow> jstring"

text \<open>\<open>String(n)\<close> for a non-negative integer, as a template literal renders it.\<close>

function showNat :: "nat \<Rightarrow> jstring" where
  "showNat n = (if n < 10 then [48 + n] else showNat (n div 10) @ [48 + n mod 10])"
  by pat_completeness auto
termination
  by (relation "measure id") auto

declare showNat.simps [simp del]

text \<open>\<open>hay.includes(needle)\<close>.\<close>

fun jsIncludes :: "jstring \<Rightarrow> jstring \<Rightarrow> bool" where
  "jsIncludes [] needle = (needle = [])"
| "jsIncludes (h # hay) needle = (prefix needle (h # hay) \<or> jsIncludes hay needle)"

text \<open>\<open>parts.join(sep)\<close>.\<close>

fun joinWith :: "jstring \<Rightarrow> jstring list \<Rightarrow> jstring" where
  "joinWith sep [] = []"
| "joinWith sep [p] = p"
| "joinWith sep (p # q # ps) = p @ sep @ joinWith sep (q # ps)"

text \<open>\<open>s.split(sep)\<close> for a separator of one code unit.\<close>

fun splitOn :: "nat \<Rightarrow> jstring \<Rightarrow> jstring list" where
  "splitOn sep [] = [[]]"
| "splitOn sep (c # cs) =
     (if c = sep then [] # splitOn sep cs
      else (case splitOn sep cs of [] \<Rightarrow> [[c]] | p # ps \<Rightarrow> (c # p) # ps))"

section \<open>Data model\<close>

text \<open>
  \<open>RunStatus\<close> of \<open>orchestrator.ts\<close>; \<open>PENDING\<close> is the status the scheduler gives a run it
  creates.
\<close>

datatype RunStatus =
  NEW | DISCOVERING | EXTRACTING | SYNTHESIZING | QA | COMPLETE | ERROR | SKIPPED | PENDING

datatype SourceStatus = SOURCE_OK | SOURCE_ERROR

datatype FindingKind = GAP | DIFFERENTIATOR | COMMON_FEATURE | RISK | RECOMMENDATION | INSIGHT

record run =
  run_id :: jstring
  run_projectId :: jstring
  run_status :: RunStatus
  run_lastNote :: "jstring option"
  run_createdAt :: int
  run_startedAt :: "int option"
  run_completedAt :: "int option"

record source =
  src_id :: jstring
  src_runId :: jstring
  src_url :: jstring
  src_status :: SourceStatus
  src_notes :: "jstring option"

record capability =
  cap_runId :: jstring
  cap_category :: jstring
  cap_name :: jstring
  cap_normalized :: jstring

record competitor =
  comp_id :: jstring
  comp_runId :: jstring
  comp_name :: jstring

record finding =
  f_kind :: FindingKind
  f_text :: jstring
  f_confidence :: real
  f_citations :: "jstring list"

text \<open>
  The store: the tables the pipeline reads and writes. \<open>statusWrites\<close> is the trace of the
  statuses that \<open>setStatus\<close> has persisted, \<open>creditsConsumed\<close> the trace of the calls of
  \<open>consume\<close>.
\<close>

record db =
  runs :: "run list"
  runLogs :: "(jstring \<times> jstring) list"
  sources :: "source list"
  findings :: "(jstring \<times> finding) list"
  capabilities :: "capability list"
  competitors :: "competitor list"
  statusWrites :: "(jstring \<times> RunStatus) list"
  creditsConsumed :: "(jstring \<times> nat) list"

section \<open>Run orchestrator: status transitions\<close>

text \<open>\<open>prisma.run.findUnique({ where: { id } })\<close>.\<close>

definition findRun :: "jstring \<Rightarrow> db \<Rightarrow> run option" where
  "findRun runId d = find (\<lambda>r. run_id r = runId) (runs d)"

text \<open>
  \<open>prisma.run.update({ where: { id }, data })\<close>: the row is changed; a missing row is an
  exception (\<open>Some message\<close>).
\<close>

definition updateRun :: "jstring \<Rightarrow> (run \<Rightarrow> run) \<Rightarrow> db \<Rightarrow> jstring option \<times> db" where
  "updateRun runId f d =
     (case findRun runId d of
        None \<Rightarrow> (Some (js ''Record to update not found''), d)
      | Some _ \<Rightarrow> (None, d\<lparr>runs := map (\<lambda>r. if run_id r = runId then f r else r) (runs d)\<rparr>))"

text \<open>
  \<open>setStatus\<close> (orchestrator.ts, lines 1037 to 1042). \<open>now\<close> is the clock, \<open>startedAtTs\<close> the
  optional fourth argument.
\<close>

definition setStatus ::
  "int \<Rightarrow> jstring \<Rightarrow> RunStatus \<Rightarrow> jstring option \<Rightarrow> int option \<Rightarrow> db \<Rightarrow> jstring option \<times> db" where
  "setStatus now runId status note startedAtTs d =
     (let stamp1 = (\<lambda>r. case startedAtTs of
                        Some ts \<Rightarrow> if status = DISCOVERING \<and> ts \<noteq> 0
                                   then r\<lparr>run_startedAt := Some ts\<rparr> else r
                      | None \<Rightarrow> r);
          stamp2 = (\<lambda>r. if status = COMPLETE \<or> status = ERROR \<or> status = SKIPPED
                        then r\<lparr>run_completedAt := Some now\<rparr> else r)
      in case updateRun runId
                (\<lambda>r. stamp2 (stamp1 (r\<lparr>run_status := status, run_lastNote := note\<rparr>))) d of
           (Some e, d') \<Rightarrow> (Some e, d')
         | (None, d') \<Rightarrow> (None, d'\<lparr>statusWrites := statusWrites d' @ [(runId, status)]\<rparr>))"

text \<open>
  \<open>appendLog\<close> (lines 1044 to 1054) swallows its own failures; here the log line is stored.
\<close>

definition appendLog :: "jstring \<Rightarrow> jstring \<Rightarrow> db \<Rightarrow> db" where
  "appendLog runId line d = d\<lparr>runLogs := runLogs d @ [(runId, line)]\<rparr>"

subsection \<open>Guardrails\<close>

text \<open>\<open>runGuardrails\<close> (lines 1299 to 1336): it reads four tables and returns the issues.\<close>

record guardResult =
  g_summary :: jstring
  g_issues :: "jstring list"

definition runGuardrails :: "jstring \<Rightarrow> nat \<Rightarrow> db \<Rightarrow> guardResult" where
  "runGuardrails runId stalenessDays d =
     (let srcs = filter (\<lambda>s. src_runId s = runId) (sources d);
          fnds = map snd (filter (\<lambda>p. fst p = runId) (findings d));
          caps = filter (\<lambda>c. cap_runId c = runId) (capabilities d);
          comps = filter (\<lambda>c. comp_runId c = runId) (competitors d);
          missing = filter (\<lambda>f. f_citations f = []) fnds;
          staleSources = filter (\<lambda>s. case src_notes s of None \<Rightarrow> False
                                      | Some n \<Rightarrow> jsIncludes n (js ''Stale source'')) srcs;
          failedSources = filter (\<lambda>s. src_status s = SOURCE_ERROR) srcs;
          issues =
            (if missing \<noteq> [] then [js ''Findings without citations: '' @ showNat (length missing)]
             else [])
          @ (if length srcs < 5
             then [js ''Low source count: Only '' @ showNat (length srcs)
                   @ js '' sources found. Consider expanding search queries.'']
             else [])
          @ (if length caps < 10
             then [js ''Low capability count: Only '' @ showNat (length caps)
                   @ js '' capabilities extracted. May indicate limited source content.'']
             else [])
          @ (if length comps = 0
             then [js ''No competitors identified. Consider adding competitor names to project inputs.'']
             else [])
          @ (if length staleSources > 0
             then [js ''Stale sources detected: '' @ showNat (length staleSources)
                   @ js '' sources are older than '' @ showNat stalenessDays @ js '' days'']
             else [])
          @ (if real (length failedSources) > real (length srcs) * 0.3
             then [js ''High source fetch failure rate: '' @ showNat (length failedSources)
                   @ js ''/'' @ showNat (length srcs) @ js '' sources failed to fetch'']
             else [])
      in \<lparr>g_summary = (if issues \<noteq> [] then js ''Guardrails found issues''
                       else js ''All checks passed''),
          g_issues = issues\<rparr>)"

subsection \<open>The pipeline as a sequence of status writes and phases\<close>

text \<open>
  The phases between two status writes, and the four reads of \<open>runGuardrails\<close>. A phase
  either completes or lets an exception escape to the top-level \<open>catch\<close> (\<open>raises\<close>). What
  a phase leaves in the tables of sources, findings, capabilities and competitors, and the
  log lines it appends, are parameters (\<open>writes\<close>); the functions of the later sections
  model parts of them. No phase writes a run row: \<open>setStatus\<close> is called at the lines
  listed below and nowhere else.
\<close>

datatype phase =
  Discovery | Fetching | Extraction | Synthesis | Reporting | ChangeDetection | Guardrails
| Notification

record tables =
  t_sources :: "source list"
  t_findings :: "(jstring \<times> finding) list"
  t_capabilities :: "capability list"
  t_competitors :: "competitor list"
  t_logs :: "(jstring \<times> jstring) list"

record env =
  now :: int
  stalenessDays :: nat
  raises :: "phase \<Rightarrow> jstring option"
  writes :: "phase \<Rightarrow> db \<Rightarrow> tables"
  reportId :: jstring
  stack :: jstring

type_synonym action = "db \<Rightarrow> jstring option \<times> db"

definition work :: "env \<Rightarrow> phase \<Rightarrow> action" where
  "work e ph d =
     (let w = writes e ph d
      in (raises e ph,
          d\<lparr>sources := t_sources w, findings := t_findings w, capabilities := t_capabilities w,
            competitors := t_competitors w, runLogs := runLogs d @ t_logs w\<rparr>))"

fun seqAll :: "action list \<Rightarrow> action" where
  "seqAll [] d = (None, d)"
| "seqAll (a # as) d = (case a d of (Some err, d') \<Rightarrow> (Some err, d') | (None, d') \<Rightarrow> seqAll as d')"

text \<open>
  Lines 983 to 990: the guardrails and the log line they end in. The call of
  \<open>runGuardrails\<close> stands in no \<open>try\<close> of its own, so a read of lines 1301 to 1304 that is
  rejected is an exception of the pipeline, raised before anything is logged.
\<close>

definition guardrailStep :: "env \<Rightarrow> jstring \<Rightarrow> action" where
  "guardrailStep e runId d =
     (case raises e Guardrails of
        Some err \<Rightarrow> (Some err, d)
      | None \<Rightarrow>
          (let guard = runGuardrails runId (stalenessDays e) d
           in (None, if g_issues guard \<noteq> []
                     then appendLog runId (js ''Guardrails: '' @ joinWith (js ''; '') (g_issues guard)) d
                     else appendLog runId (js ''Guardrails: All checks passed'') d)))"

text \<open>
  The body of the \<open>try\<close> block from line 46 on, with the line of each \<open>setStatus\<close> call.
  \<open>8230\<close> is the ellipsis of the notes.
\<close>

definition steps :: "env \<Rightarrow> jstring \<Rightarrow> action list" where
  "steps e runId =
      [ setStatus (now e) runId DISCOVERING (Some (js ''Starting discovery'' @ [8230])) (Some (now e)),
        \<comment> \<open>line 46\<close>
        work e Discovery,
        (\<lambda>d. setStatus (now e) runId EXTRACTING
               (Some (js ''Fetched '' @ showNat (length (filter (\<lambda>s. src_runId s = runId) (sources d)))
                      @ js '' sources; extracting content'' @ [8230])) None d),
        \<comment> \<open>line 247\<close>
        work e Fetching,
        setStatus (now e) runId EXTRACTING
          (Some (js ''Extracting capabilities, integrations, compliance, pricing'' @ [8230])) None,
        \<comment> \<open>line 266\<close>
        work e Extraction,
        setStatus (now e) runId SYNTHESIZING (Some (js ''Synthesizing findings'' @ [8230])) None,
        \<comment> \<open>line 549\<close>
        work e Synthesis,
        setStatus (now e) runId SYNTHESIZING (Some (js ''Generating report'' @ [8230])) None,
        \<comment> \<open>line 913\<close>
        work e Reporting,
        setStatus (now e) runId QA (Some (js ''Running change detection'' @ [8230])) None,
        \<comment> \<open>line 943\<close>
        work e ChangeDetection,
        setStatus (now e) runId QA (Some (js ''Running guardrails'' @ [8230])) None,
        \<comment> \<open>line 984\<close>
        guardrailStep e runId,
        setStatus (now e) runId COMPLETE (Some (js ''Report ready: '' @ reportId e)) None,
        \<comment> \<open>line 993\<close>
        work e Notification ]"

definition pipeline :: "env \<Rightarrow> jstring \<Rightarrow> action" where
  "pipeline e runId = seqAll (steps e runId)"

text \<open>
  \<open>orchestrateRun\<close> (lines 22 to 1033). The result is the exception that reaches the
  caller, if any, and the store.
\<close>

definition orchestrateRun :: "env \<Rightarrow> jstring \<Rightarrow> action" where
  "orchestrateRun e runId d =
     (let tried =
            (case findRun runId d of
               None \<Rightarrow> (Some (js ''Run not found: '' @ runId), d)
             | Some r \<Rightarrow> if run_status r = SKIPPED then (None, d) else pipeline e runId d)
      in case tried of
           (None, d') \<Rightarrow> (None, d')
         | (Some msg, d') \<Rightarrow>
             (case setStatus (now e) runId ERROR (Some (js ''Error: '' @ msg)) None d' of
                (Some err, d'') \<Rightarrow> (Some err, d'')
              | (None, d'') \<Rightarrow>
                  (Some msg, appendLog runId (js ''FATAL ERROR: '' @ msg @ [10] @ stack e) d'')))"

text \<open>The statuses persisted for one run, in the order of the writes.\<close>

definition persisted :: "jstring \<Rightarrow> db \<Rightarrow> RunStatus list" where
  "persisted runId d = map snd (filter (\<lambda>p. fst p = runId) (statusWrites d))"

section \<open>Task scheduler: the AUTO-RERUN handler\<close>

datatype TaskType = AUTO_RERUN | EMAIL_NOTIFICATION | CLEANUP






definition truthy :: "jstring option \<Rightarrow> bool" where
  "truthy v = (case v of None \<Rightarrow> False | Some s \<Rightarrow> s \<noteq> [])"




section \<open>Canonicalization engine (\<open>lib/normalize.ts\<close>)\<close>

text \<open>
  \<open>\s\<close> of a regular expression, which is also what \<open>trim\<close> removes: the white space and
  line terminator code units of ECMAScript.
\<close>

definition isSpace :: "nat \<Rightarrow> bool" where
  "isSpace c \<longleftrightarrow>
     (9 \<le> c \<and> c \<le> 13) \<or> c = 32 \<or> c = 160 \<or> c = 5760 \<or> (8192 \<le> c \<and> c \<le> 8202) \<or>
     c = 8232 \<or> c = 8233 \<or> c = 8239 \<or> c = 8287 \<or> c = 12288 \<or> c = 65279"

text \<open>The complement of \<open>NON_ALPHANUM = /[^a-z0-9\+]/g\<close>.\<close>

definition isAlnumPlus :: "nat \<Rightarrow> bool" where
  "isAlnumPlus c \<longleftrightarrow> (97 \<le> c \<and> c \<le> 122) \<or> (48 \<le> c \<and> c \<le> 57) \<or> c = 43"

text \<open>The second step removes the combining marks, \<open>U+0300\<close> to \<open>U+036F\<close>.\<close>

definition stripMarks :: "jstring \<Rightarrow> jstring" where
  "stripMarks s = filter (\<lambda>c. \<not> (768 \<le> c \<and> c \<le> 879)) s"

text \<open>\<open>.replace(NON_ALPHANUM, ' ')\<close>.\<close>

definition replaceNonAlnum :: "jstring \<Rightarrow> jstring" where
  "replaceNonAlnum s = map (\<lambda>c. if isAlnumPlus c then c else 32) s"

text \<open>\<open>.replace(MULTISPACE, ' ')\<close> with \<open>MULTISPACE = /\s+/g\<close>.\<close>

function collapseSpaces :: "jstring \<Rightarrow> jstring" where
  "collapseSpaces [] = []"
| "collapseSpaces (c # cs) =
     (if isSpace c then 32 # collapseSpaces (dropWhile isSpace cs) else c # collapseSpaces cs)"
  by pat_completeness auto
termination
  by (relation "measure length") (auto simp: length_dropWhile_le less_Suc_eq_le)

text \<open>\<open>.trim()\<close>.\<close>

definition trim :: "jstring \<Rightarrow> jstring" where
  "trim s = rev (dropWhile isSpace (rev (dropWhile isSpace s)))"

text \<open>\<open>normalizeFeature\<close> (lines 4 to 13).\<close>

definition normalizeFeature :: "unicode \<Rightarrow> jstring \<Rightarrow> jstring" where
  "normalizeFeature U raw =
     trim (collapseSpaces (replaceNonAlnum (toLowerCase U (stripMarks (nfkd U raw)))))"

text \<open>\<open>canonicalFeatureName\<close> (lines 15 to 22).\<close>

definition capitalize :: "unicode \<Rightarrow> jstring \<Rightarrow> jstring" where
  "capitalize U part = (case part of [] \<Rightarrow> [] | c # cs \<Rightarrow> toUpperCase U [c] @ cs)"

definition canonicalFeatureName :: "unicode \<Rightarrow> jstring \<Rightarrow> jstring" where
  "canonicalFeatureName U raw =
     (let nrm = normalizeFeature U raw
      in if nrm = [] then [] else joinWith (js '' '') (map (capitalize U) (splitOn 32 nrm)))"

subsection \<open>The built-ins on Basic Latin\<close>

definition asciiLower :: "nat \<Rightarrow> nat" where
  "asciiLower c = (if 65 \<le> c \<and> c \<le> 90 then c + 32 else c)"

definition asciiUpper :: "nat \<Rightarrow> nat" where
  "asciiUpper c = (if 97 \<le> c \<and> c \<le> 122 then c - 32 else c)"

text \<open>
  What the Unicode tables say on strings of Basic Latin (code units below 128): NFKD leaves
  them as they are, and the case mappings are those of the 26 letters.
\<close>

definition respectsAscii :: "unicode \<Rightarrow> bool" where
  "respectsAscii U \<longleftrightarrow>
     (\<forall>s. (\<forall>c \<in> set s. c < 128) \<longrightarrow>
          nfkd U s = s \<and> toLowerCase U s = map asciiLower s \<and> toUpperCase U s = map asciiUpper s)"

text \<open>
  An instance for evaluation. It has the canonical decompositions of the accented letters
  of Latin-1 (a base letter and one combining mark), and the simple case mappings of Basic
  Latin and of those letters; every other code unit is left as it is.
\<close>

definition latin1Marks :: "(nat \<times> nat \<times> nat) list" where
  "latin1Marks =
     [(192, 65, 768), (193, 65, 769), (194, 65, 770), (195, 65, 771), (196, 65, 776),
      (197, 65, 778), (199, 67, 807), (200, 69, 768), (201, 69, 769), (202, 69, 770),
      (203, 69, 776), (204, 73, 768), (205, 73, 769), (206, 73, 770), (207, 73, 776),
      (209, 78, 771), (210, 79, 768), (211, 79, 769), (212, 79, 770), (213, 79, 771),
      (214, 79, 776), (217, 85, 768), (218, 85, 769), (219, 85, 770), (220, 85, 776),
      (221, 89, 769)]"

definition decompose :: "nat \<Rightarrow> jstring" where
  "decompose c =
     (case map_of latin1Marks c of
        Some (b, m) \<Rightarrow> [b, m]
      | None \<Rightarrow>
          (case map_of latin1Marks (c - 32) of
             Some (b, m) \<Rightarrow> if 224 \<le> c then [b + 32, m] else [c]
           | None \<Rightarrow> if c = 255 then [121, 776] else [c]))"

definition latinLower :: "nat \<Rightarrow> nat" where
  "latinLower c = (if (65 \<le> c \<and> c \<le> 90) \<or> (192 \<le> c \<and> c \<le> 222 \<and> c \<noteq> 215) then c + 32 else c)"

definition latinUpper :: "nat \<Rightarrow> nat" where
  "latinUpper c = (if (97 \<le> c \<and> c \<le> 122) \<or> (224 \<le> c \<and> c \<le> 254 \<and> c \<noteq> 247) then c - 32 else c)"

definition latin :: unicode where
  "latin = \<lparr>nfkd = (\<lambda>s. concat (map decompose s)),
            toLowerCase = map latinLower, toUpperCase = map latinUpper\<rparr>"

section \<open>Feature definition registry (\<open>lib/features.ts\<close>)\<close>

datatype FeatureOrigin = USER | COMPETITOR | SYSTEM

record featureDefinition =
  fd_id :: jstring
  fd_name :: jstring
  fd_normalized :: jstring
  fd_description :: "jstring option"
  fd_category :: "jstring option"
  fd_origin :: FeatureOrigin
  fd_aliases :: "jstring list"

record nameEntry =
  e_original :: jstring
  e_normalized :: jstring
  e_canonical :: jstring

text \<open>
  A JavaScript \<open>Map\<close> as an association list in insertion order: \<open>set\<close> on a key that is
  present replaces the value in place. \<open>uniqFirst\<close> is \<open>Array.from(new Set(xs))\<close>.
\<close>

fun mapSet :: "'k \<Rightarrow> 'v \<Rightarrow> ('k \<times> 'v) list \<Rightarrow> ('k \<times> 'v) list" where
  "mapSet k v [] = [(k, v)]"
| "mapSet k v ((k', v') # rest) = (if k = k' then (k, v) # rest else (k', v') # mapSet k v rest)"

fun uniqFirst :: "'a list \<Rightarrow> 'a list" where
  "uniqFirst [] = []"
| "uniqFirst (x # xs) = x # filter (\<lambda>y. y \<noteq> x) (uniqFirst xs)"

definition orElse :: "jstring \<Rightarrow> jstring \<Rightarrow> jstring" where
  "orElse a b = (if a \<noteq> [] then a else b)"

text \<open>Lines 80 to 89 of the file: the names are trimmed, the empty ones dropped.\<close>

definition normalizedEntries :: "unicode \<Rightarrow> jstring list \<Rightarrow> nameEntry list" where
  "normalizedEntries U names =
     map (\<lambda>name. \<lparr>e_original = name, e_normalized = normalizeFeature U name,
                    e_canonical = canonicalFeatureName U name\<rparr>)
         (filter (\<lambda>s. s \<noteq> []) (map trim names))"

text \<open>
  The first loop (lines 100 to 119). \<open>genId\<close> names the row that the store creates, from
  the number of rows it holds.
\<close>

definition createMissing ::
  "(nat \<Rightarrow> jstring) \<Rightarrow> FeatureOrigin \<Rightarrow> jstring option \<Rightarrow> nameEntry list \<Rightarrow>
   (jstring \<times> featureDefinition) list \<times> featureDefinition list \<Rightarrow>
   (jstring \<times> featureDefinition) list \<times> featureDefinition list" where
  "createMissing genId origin category entries start =
     foldl (\<lambda>(byNormalized, catalog) entry.
              if map_of byNormalized (e_normalized entry) \<noteq> None then (byNormalized, catalog)
              else
                let created =
                      \<lparr>fd_id = genId (length catalog),
                       fd_name = orElse (e_canonical entry) (e_original entry),
                       fd_normalized = e_normalized entry,
                       fd_description = None,
                       fd_category = category,
                       fd_origin = origin,
                       fd_aliases = (if e_canonical entry \<noteq> [] \<and> e_canonical entry \<noteq> e_original entry
                                     then [e_original entry] else [])\<rparr>
                in (mapSet (fd_normalized created) created byNormalized, catalog @ [created]))
           start entries"

text \<open>The second loop (lines 121 to 153): the alias updates, keyed by the id of the definition.\<close>

definition aliasUpdates ::
  "(jstring \<times> featureDefinition) list \<Rightarrow> nameEntry list \<Rightarrow> (jstring \<times> jstring list) list" where
  "aliasUpdates byNormalized entries =
     foldl (\<lambda>updates entry.
              case map_of byNormalized (e_normalized entry) of
                None \<Rightarrow> updates
              | Some def \<Rightarrow>
                  let aliases0 = uniqFirst (fd_aliases def);
                      canonical = orElse (e_canonical entry) (e_original entry);
                      aliases1 = (if fd_name def \<noteq> canonical \<and> canonical \<notin> set aliases0
                                  then aliases0 @ [canonical] else aliases0);
                      nextAliases = (if e_original entry \<noteq> [] \<and> e_original entry \<noteq> canonical
                                        \<and> e_original entry \<notin> set aliases1
                                     then aliases1 @ [e_original entry] else aliases1)
                  in if sort nextAliases \<noteq> sort (fd_aliases def)
                     then mapSet (fd_id def) nextAliases updates else updates)
           [] entries"

text \<open>The third loop (lines 155 to 160).\<close>

definition applyAliasUpdates ::
  "(jstring \<times> jstring list) list \<Rightarrow> featureDefinition list \<Rightarrow> featureDefinition list" where
  "applyAliasUpdates updates catalog =
     foldl (\<lambda>cat (i, aliases). map (\<lambda>d. if fd_id d = i then d\<lparr>fd_aliases := aliases\<rparr> else d) cat)
           catalog updates"

text \<open>
  \<open>ensureFeatureDefinitions\<close> (lines 71 to 164): the definitions it returns and the catalog
  it leaves. The definitions returned are those read or created, as they were before the
  alias updates.
\<close>

definition ensureFeatureDefinitions ::
  "unicode \<Rightarrow> (nat \<Rightarrow> jstring) \<Rightarrow> jstring list \<Rightarrow> FeatureOrigin \<Rightarrow> jstring option \<Rightarrow>
   featureDefinition list \<Rightarrow> featureDefinition list \<times> featureDefinition list" where
  "ensureFeatureDefinitions U genId names origin category catalog =
     (let entries = normalizedEntries U names
      in if entries = [] then ([], catalog)
         else
           let normalizedSet = uniqFirst (map e_normalized entries);
               existing = filter (\<lambda>d. fd_normalized d \<in> set normalizedSet) catalog;
               byNormalized0 = foldl (\<lambda>m d. mapSet (fd_normalized d) d m) [] existing;
               (byNormalized, catalog1) =
                 createMissing genId origin category entries (byNormalized0, catalog);
               updates = aliasUpdates byNormalized entries
           in (map snd byNormalized, applyAliasUpdates updates catalog1))"

section \<open>Discovery: the results selected for one query\<close>

record searchResult =
  sr_title :: jstring
  sr_url :: jstring
  sr_snippet :: "jstring option"
  sr_publishedAt :: "jstring option"
  sr_source :: "jstring option"

text \<open>
  Lines 169 to 187: the score of one result. \<open>relevanceTokens\<close> is the token set in its
  insertion order, \<open>inputCompetitors\<close> the declared competitor names.
\<close>

definition resultBody :: "unicode \<Rightarrow> searchResult \<Rightarrow> jstring" where
  "resultBody U r =
     toLowerCase U (sr_title r @ js '' '' @ (case sr_snippet r of None \<Rightarrow> [] | Some s \<Rightarrow> s)
                    @ js '' '' @ sr_url r)"

definition score :: "unicode \<Rightarrow> jstring list \<Rightarrow> jstring list \<Rightarrow> searchResult \<Rightarrow> nat" where
  "score U relevanceTokens inputCompetitors r =
     (let body = resultBody U r;
          s0 = (if length relevanceTokens = 0 then 1
                else foldl (\<lambda>s token.
                              if length token < 3 then s
                              else if jsIncludes body token
                                   then s + (if length token \<ge> 6 then 2 else 1)
                                   else s)
                           0 relevanceTokens)
      in foldl (\<lambda>s comp. if jsIncludes body (toLowerCase U comp) then s + 2 else s)
               s0 inputCompetitors)"

text \<open>
  Lines 161 to 194. \<open>normalizeUrl\<close> (lines 1078 to 1087, built on the \<open>URL\<close> parser) is a
  parameter: it gives the empty string for what is no URL. \<open>seen\<close> holds the URLs kept by
  the earlier queries of the run. The loop builds \<open>relevant\<close> and \<open>fallback\<close>.
\<close>

definition partitionResults ::
  "unicode \<Rightarrow> (jstring \<Rightarrow> jstring) \<Rightarrow> jstring list \<Rightarrow> jstring list \<Rightarrow> jstring list \<Rightarrow>
   searchResult list \<Rightarrow> searchResult list \<times> searchResult list" where
  "partitionResults U normalizeUrl seen relevanceTokens inputCompetitors results =
     foldl (\<lambda>(relevant, fallback) r.
              let url = normalizeUrl (sr_url r)
              in if url = [] \<or> url \<in> set seen then (relevant, fallback)
                 else (if score U relevanceTokens inputCompetitors r > 0
                       then relevant @ [r] else relevant,
                       fallback @ [r]))
           ([], []) results"

definition selectedResults ::
  "unicode \<Rightarrow> (jstring \<Rightarrow> jstring) \<Rightarrow> jstring list \<Rightarrow> jstring list \<Rightarrow> jstring list \<Rightarrow>
   searchResult list \<Rightarrow> searchResult list" where
  "selectedResults U normalizeUrl seen relevanceTokens inputCompetitors results =
     (let (relevant, fallback) =
            partitionResults U normalizeUrl seen relevanceTokens inputCompetitors results
      in if length relevant > 0 then relevant else take 3 fallback)"

text \<open>The results that the loop does not skip.\<close>

definition eligible :: "(jstring \<Rightarrow> jstring) \<Rightarrow> jstring list \<Rightarrow> searchResult list \<Rightarrow> searchResult list" where
  "eligible normalizeUrl seen results =
     filter (\<lambda>r. normalizeUrl (sr_url r) \<noteq> [] \<and> normalizeUrl (sr_url r) \<notin> set seen) results"

section \<open>Extraction: the feature rows of a run\<close>

record featureCandidate =
  fc_runId :: jstring
  fc_name :: jstring
  fc_normalized :: jstring
  fc_sourceId :: jstring
  fc_description :: "jstring option"
  fc_competitorId :: "jstring option"

record featureRow =
  ft_runId :: jstring
  ft_name :: jstring
  ft_normalized :: jstring
  ft_description :: "jstring option"
  ft_sourceId :: jstring
  ft_competitorId :: "jstring option"
  ft_featureDefinitionId :: "jstring option"
  ft_origin :: FeatureOrigin
  ft_confidence :: real

text \<open>Lines 497 to 514 of \<open>orchestrator.ts\<close>: the first candidate of every key is kept.\<close>

definition featureKey :: "featureCandidate \<Rightarrow> jstring" where
  "featureKey c =
     (case fc_competitorId c of None \<Rightarrow> js ''global'' | Some i \<Rightarrow> i) @ js ''|'' @ fc_normalized c"

definition featureCreates :: "featureCandidate list \<Rightarrow> featureCandidate list" where
  "featureCreates candidates =
     map snd (foldl (\<lambda>featureByKey candidate.
                       if map_of featureByKey (featureKey candidate) = None
                       then mapSet (featureKey candidate) candidate featureByKey
                       else featureByKey)
                    [] candidates)"

text \<open>
  Lines 516 to 539: the definitions are ensured for the names kept, and one feature row is
  prepared for each candidate kept, its \<open>normalized\<close> recomputed from its name.
\<close>

definition featureCreatesWithDefs ::
  "unicode \<Rightarrow> (nat \<Rightarrow> jstring) \<Rightarrow> featureCandidate list \<Rightarrow> featureDefinition list \<Rightarrow>
   featureRow list \<times> featureDefinition list" where
  "featureCreatesWithDefs U genId candidates catalog =
     (let creates = featureCreates candidates;
          (featureDefinitions, catalog') =
             (if creates \<noteq> []
              then ensureFeatureDefinitions U genId (map fc_name creates) COMPETITOR None catalog
              else ([], catalog));
          featureDefByNormalized =
             foldl (\<lambda>m d. mapSet (fd_normalized d) d m) [] featureDefinitions
      in (map (\<lambda>f. let normalized = normalizeFeature U (fc_name f)
                     in \<lparr>ft_runId = fc_runId f, ft_name = fc_name f, ft_normalized = normalized,
                         ft_description = fc_description f, ft_sourceId = fc_sourceId f,
                         ft_competitorId = fc_competitorId f,
                         ft_featureDefinitionId =
                           map_option fd_id (map_of featureDefByNormalized normalized),
                         ft_origin = COMPETITOR, ft_confidence = 0.6\<rparr>)
              creates,
          catalog'))"

text \<open>
  The unique index \<open>Feature_runId_competitorId_normalized_key\<close> of the migration
  \<open>20251110121500_feature_catalog\<close>, on the columns \<open>runId\<close>, \<open>competitorId\<close> and
  \<open>normalized\<close>. Two rows are in conflict when they agree on the three columns;
  PostgreSQL holds no \<open>NULL\<close> equal to another in a unique index, so rows without a
  competitor are never in conflict.
\<close>

definition conflicts :: "featureRow \<Rightarrow> featureRow \<Rightarrow> bool" where
  "conflicts a b \<longleftrightarrow>
     ft_runId a = ft_runId b \<and> ft_competitorId a \<noteq> None \<and> ft_competitorId a = ft_competitorId b
     \<and> ft_normalized a = ft_normalized b"

text \<open>
  The calls of \<open>prisma.feature.create\<close> in the transaction of lines 541 to 547, in their
  order, on the \<open>Feature\<close> table: a row in conflict with a row of the table is rejected,
  which is the exception of the transaction (\<open>Inl\<close>); then no row of the transaction is
  kept. The other creates of the transaction are left out.
\<close>

fun createFeatures :: "featureRow list \<Rightarrow> featureRow list \<Rightarrow> jstring + featureRow list" where
  "createFeatures table [] = Inr table"
| "createFeatures table (r # rs) =
     (if list_ex (\<lambda>x. conflicts x r) table
      then Inl (js ''Unique constraint failed on the fields: (`runId`,`competitorId`,`normalized`)'')
      else createFeatures (table @ [r]) rs)"

text \<open>
  Lines 497 to 547 for the features: the \<open>Feature\<close> table after the transaction, or its
  exception, and the catalog of definitions, which is written before the transaction and
  outside it.
\<close>

definition persistedFeatures ::
  "unicode \<Rightarrow> (nat \<Rightarrow> jstring) \<Rightarrow> featureCandidate list \<Rightarrow> featureDefinition list \<Rightarrow>
   featureRow list \<Rightarrow> (jstring + featureRow list) \<times> featureDefinition list" where
  "persistedFeatures U genId candidates catalog table =
     (let (rows, catalog') = featureCreatesWithDefs U genId candidates catalog
      in (createFeatures table rows, catalog'))"

section \<open>Capability extraction (\<open>lib/extract/capabilities.ts\<close>)\<close>











subsection \<open>The regular expressions\<close>

text \<open>
  The patterns of \<open>CAT_PATTERNS\<close> use literals, character classes with a greedy bounded
  repetition, alternation, capture groups and \<open>\b\<close>; all carry the flags \<open>g\<close> and \<open>i\<close>.
  \<open>Lit\<close> is a literal of Basic Latin, \<open>Rep cls lo hi\<close> a class repeated \<open>lo\<close> to \<open>hi\<close> times
  (\<open>None\<close>: no upper bound).
\<close>

datatype citem = CRange nat nat | CChar nat | CWord | CSpace

datatype rx =
  Lit string
| Rep "citem list" nat "nat option"
| Alt "rx list"
| Seq "rx list"
| Grp nat rx
| WordB

definition isWordChar :: "nat \<Rightarrow> bool" where
  "isWordChar c \<longleftrightarrow> (48 \<le> c \<and> c \<le> 57) \<or> (65 \<le> c \<and> c \<le> 90) \<or> c = 95 \<or> (97 \<le> c \<and> c \<le> 122)"

fun itemMatches :: "citem \<Rightarrow> nat \<Rightarrow> bool" where
  "itemMatches (CRange a b) c = (a \<le> c \<and> c \<le> b)"
| "itemMatches (CChar a) c = (c = a)"
| "itemMatches CWord c = isWordChar c"
| "itemMatches CSpace c = isSpace c"

text \<open>
  Matching with the flag \<open>i\<close> and without the flag \<open>u\<close> compares the canonical forms of
  the code units. A code unit from 128 on never has the canonical form of one below 128, so
  for the patterns here the comparison is that of Basic Latin without regard to case.
\<close>

definition sameLetter :: "nat \<Rightarrow> nat \<Rightarrow> bool" where
  "sameLetter p c \<longleftrightarrow> c < 128 \<and> asciiUpper c = asciiUpper p"

definition classMatches :: "citem list \<Rightarrow> nat \<Rightarrow> bool" where
  "classMatches cls c \<longleftrightarrow>
     (\<exists>i \<in> set cls. itemMatches i c) \<or>
     (c < 128 \<and> (\<exists>i \<in> set cls. itemMatches i (asciiUpper c) \<or> itemMatches i (asciiLower c)))"

text \<open>
  A matcher state: the code unit before the position, the text from the position on, and
  the captures. A matcher gives the states it can end in, the preferred one first.
\<close>

type_synonym mstate = "nat option \<times> jstring \<times> (nat \<times> jstring) list"

fun litMatch :: "jstring \<Rightarrow> nat option \<Rightarrow> jstring \<Rightarrow> (nat option \<times> jstring) list" where
  "litMatch [] prev rest = [(prev, rest)]"
| "litMatch (p # ps) prev [] = []"
| "litMatch (p # ps) prev (c # cs) = (if sameLetter p c then litMatch ps (Some c) cs else [])"

fun repMatch :: "citem list \<Rightarrow> nat \<Rightarrow> nat option \<Rightarrow> nat option \<Rightarrow> jstring \<Rightarrow> (nat option \<times> jstring) list" where
  "repMatch cls lo hi prev [] = (if lo = 0 then [(prev, [])] else [])"
| "repMatch cls lo hi prev (c # cs) =
     (if hi \<noteq> Some 0 \<and> classMatches cls c
      then repMatch cls (lo - 1) (map_option (\<lambda>h. h - 1) hi) (Some c) cs else [])
     @ (if lo = 0 then [(prev, c # cs)] else [])"

fun matchRx :: "rx \<Rightarrow> mstate \<Rightarrow> mstate list" where
  "matchRx (Lit s) (prev, rest, caps) = map (\<lambda>(p, r). (p, r, caps)) (litMatch (js s) prev rest)"
| "matchRx (Rep cls lo hi) (prev, rest, caps) =
     map (\<lambda>(p, r). (p, r, caps)) (repMatch cls lo hi prev rest)"
| "matchRx (Alt rs) st = concat (map (\<lambda>r. matchRx r st) rs)"
| "matchRx (Seq []) st = [st]"
| "matchRx (Seq (r # rs)) st = concat (map (matchRx (Seq rs)) (matchRx r st))"
| "matchRx (Grp n r) (prev, rest, caps) =
     map (\<lambda>(p, r', caps'). (p, r', mapSet n (take (length rest - length r') rest) caps'))
         (matchRx r (prev, rest, caps))"
| "matchRx WordB (prev, rest, caps) =
     (let a = (case prev of None \<Rightarrow> False | Some c \<Rightarrow> isWordChar c);
          b = (case rest of [] \<Rightarrow> False | c # _ \<Rightarrow> isWordChar c)
      in if a \<noteq> b then [(prev, rest, caps)] else [])"


definition wordAlt :: "rx list \<Rightarrow> rx" where
  "wordAlt alts = Seq [WordB, Grp 1 (Alt alts), WordB]"

definition opt :: "string \<Rightarrow> rx" where
  "opt s = Rep (map (\<lambda>c. CChar (of_char c)) s) 0 (Some 1)"

text \<open>\<open>CAT_PATTERNS\<close> (lines 178 to 224).\<close>

definition CAT_PATTERNS :: "(string \<times> rx list) list" where
  "CAT_PATTERNS =
     [(''Integrations'',
       [Seq [Lit ''integrat'', Grp 1 (Alt [Lit ''e'', Lit ''ion'', Lit ''ions'']), Lit '' with '',
             Grp 2 (Seq [Rep [CRange 65 90] 1 (Some 1),
                         Rep [CWord, CChar 32, CChar 45, CChar 43, CChar 46] 2 (Some 40)])],
        wordAlt [Lit ''Shopify'', Lit ''Salesforce'', Lit ''HubSpot'', Lit ''Zapier'', Lit ''Stripe'',
                 Lit ''Segment'', Lit ''Snowflake'', Lit ''Slack'', Lit ''Google Analytics'']]),
      (''Security'',
       [wordAlt [Lit ''SSO'', Lit ''SAML'', Lit ''SCIM'', Lit ''RBAC'', Lit ''encryption at rest'',
                 Lit ''encryption in transit'', Lit ''audit logs'', Lit ''MFA'', Lit ''2FA'']]),
      (''Compliance'',
       [wordAlt [Seq [Lit ''SOC'', Rep [CSpace] 0 None, Lit ''2''], Lit ''HIPAA'', Lit ''GDPR'',
                 Seq [Lit ''PCI'', Rep [CChar 45, CSpace] 0 (Some 1), Lit ''DSS''],
                 Seq [Lit ''ISO'', Rep [CSpace] 0 None, Lit ''27001''], Lit ''BAA'']]),
      (''API'',
       [wordAlt [Lit ''OpenAPI'', Lit ''Swagger'', Lit ''REST'', Lit ''GraphQL'',
                 Seq [Lit ''webhook'', opt ''s''], Seq [Lit ''SDK'', opt ''s'']]]),
      (''Performance'',
       [wordAlt [Lit ''latency'', Lit ''throughput'',
                 Seq [Lit ''99.'', Rep [CChar 57] 1 None, Lit ''%''],
                 Lit ''SLA'', Lit ''RPS'', Lit ''QPS'', Lit ''cold start'']]),
      (''Automation'',
       [wordAlt [Seq [Lit ''workflow'', opt ''s''], Seq [Lit ''automation'', opt ''s''],
                 Seq [Lit ''trigger'', opt ''s''], Lit ''rules engine'',
                 Seq [Lit ''playbook'', opt ''s'']]]),
      (''Analytics'',
       [wordAlt [Seq [Lit ''dashboard'', opt ''s''], Lit ''reporting'', Lit ''attribution'',
                 Lit ''cohort'', Lit ''funnel'']]),
      (''Permissions'',
       [wordAlt [Lit ''RBAC'', Lit ''ABAC'', Seq [Lit ''role'', opt ''s''],
                 Seq [Lit ''permission'', opt ''s''], Seq [Lit ''org'', opt ''s''],
                 Seq [Lit ''team'', opt ''s'']]]),
      (''Growth'',
       [wordAlt [Lit ''referral'', Lit ''invite'', Lit ''waitlist'', Lit ''viral'', Lit ''A/B'',
                 Seq [Lit ''experiment'', opt ''s'']]])]"







section \<open>Synthesis: deterministic findings\<close>

text \<open>\<open>pickAnySource\<close> (lines 1338 to 1340).\<close>

definition pickAnySource :: "source list \<Rightarrow> jstring option" where
  "pickAnySource srcs = (case srcs of [] \<Rightarrow> None | s # _ \<Rightarrow> Some (src_id s))"

text \<open>
  \<open>groupBy\<close> (lines 1066 to 1072) followed by \<open>Object.entries\<close>: the groups in the order in
  which their keys were first seen (no key used here is an array index, for each contains
  a \<open>|\<close>).
\<close>

fun pushGroup :: "jstring \<Rightarrow> 'a \<Rightarrow> (jstring \<times> 'a list) list \<Rightarrow> (jstring \<times> 'a list) list" where
  "pushGroup k x [] = [(k, [x])]"
| "pushGroup k x ((k', vs) # rest) =
     (if k = k' then (k', vs @ [x]) # rest else (k', vs) # pushGroup k x rest)"

definition groupBy :: "('a \<Rightarrow> jstring) \<Rightarrow> 'a list \<Rightarrow> (jstring \<times> 'a list) list" where
  "groupBy keyFn xs = foldl (\<lambda>acc x. pushGroup (keyFn x) x acc) [] xs"

definition capKey :: "unicode \<Rightarrow> capability \<Rightarrow> jstring" where
  "capKey U c = cap_category c @ js ''|'' @ toLowerCase U (cap_normalized c)"

text \<open>Lines 576 to 582. \<open>sort\<close> is stable, and so is \<open>sort_key\<close>.\<close>

definition commonGroups :: "unicode \<Rightarrow> capability list \<Rightarrow> (jstring \<times> capability list) list" where
  "commonGroups U allCaps =
     (if length allCaps > 0
      then take 15 (sort_key (\<lambda>e. - int (length (snd e))) (groupBy (capKey U) allCaps))
      else [])"

definition rareGroups :: "unicode \<Rightarrow> capability list \<Rightarrow> (jstring \<times> capability list) list" where
  "rareGroups U allCaps =
     (if length allCaps > 0
      then take 10 (filter (\<lambda>e. length (snd e) = 1) (groupBy (capKey U) allCaps))
      else [])"

text \<open>
  An element of a destructured array, as a template literal renders it: \<open>undefined\<close> when
  the array is too short.
\<close>

definition segment :: "jstring list \<Rightarrow> nat \<Rightarrow> jstring" where
  "segment parts i = (if i < length parts then parts ! i else js ''undefined'')"

text \<open>
  \<open>.filter(Boolean)\<close> on an array of strings and nulls, and the test \<open>sourceId ? ... : ...\<close>.
\<close>

definition truthyStrings :: "jstring option list \<Rightarrow> jstring list" where
  "truthyStrings xs = filter (\<lambda>s. s \<noteq> []) (List.map_filter (\<lambda>x. x) xs)"

text \<open>Common features, lines 591 to 606. \<open>34\<close> is the double quote.\<close>

definition commonFeatureFindings :: "unicode \<Rightarrow> capability list \<Rightarrow> source list \<Rightarrow> finding list" where
  "commonFeatureFindings U allCaps allSources =
     (if length allCaps > 0
      then map (\<lambda>(k, instances).
                  let parts = splitOn 124 k;
                      category = segment parts 0;
                      nrm = segment parts 1;
                      sourceIds = truthyStrings (map (\<lambda>_. pickAnySource allSources) instances)
                  in \<lparr>f_kind = COMMON_FEATURE,
                      f_text = category @ js '': '' @ [34] @ nrm @ [34] @ js '' appears across ''
                               @ showNat (length instances)
                               @ js '' sources, indicating this is a market standard.'',
                      f_confidence = min 0.9 (0.6 + real (length instances) * 0.05),
                      f_citations = take 3 sourceIds\<rparr>)
               (take 10 (commonGroups U allCaps))
      else [])"

text \<open>Differentiators, lines 760 to 772. \<open>8212\<close> is the dash of the text.\<close>

definition differentiatorFindings :: "unicode \<Rightarrow> capability list \<Rightarrow> source list \<Rightarrow> finding list" where
  "differentiatorFindings U allCaps allSources =
     (if length allCaps \<ge> 5
      then map (\<lambda>(k, instances).
                  let parts = splitOn 124 k;
                      category = segment parts 0;
                      nrm = segment parts 1;
                      sourceId = pickAnySource allSources
                  in \<lparr>f_kind = DIFFERENTIATOR,
                      f_text = js ''Potential differentiator: '' @ category @ js '' '' @ [8212]
                               @ js '' '' @ [34] @ nrm @ [34]
                               @ js '' appears uniquely in the market. This could be a competitive advantage.'',
                      f_confidence = 0.6,
                      f_citations = (if truthy sourceId then [the sourceId] else [])\<rparr>)
               (rareGroups U allCaps)
      else [])"

section \<open>Synthesis: feature opportunities\<close>

text \<open>
  A row of the \<open>Feature\<close> table as the queries of lines 558 to 574 read it, with the
  definition and the competitor it refers to and the industry of the project of its run.
\<close>

record featureObs =
  fo_runId :: jstring
  fo_name :: jstring
  fo_normalized :: jstring
  fo_sourceId :: "jstring option"
  fo_createdAt :: int
  fo_definition :: "featureDefinition option"
  fo_competitorName :: "jstring option"
  fo_industry :: "jstring option"

text \<open>\<open>allFeatures\<close>, lines 558 to 561.\<close>

definition currentFeatures :: "jstring \<Rightarrow> featureObs list \<Rightarrow> featureObs list" where
  "currentFeatures runId table = filter (\<lambda>f. fo_runId f = runId) table"

text \<open>
  \<open>historicalFeatures\<close>, lines 562 to 574: rows of other runs that have a definition, of
  the projects of the same industry when the project of the run has one, the latest 300.
\<close>

definition historicalWhere :: "jstring \<Rightarrow> jstring option \<Rightarrow> featureObs \<Rightarrow> bool" where
  "historicalWhere runId industry f \<longleftrightarrow>
     fo_definition f \<noteq> None \<and> fo_runId f \<noteq> runId \<and>
     (truthy industry \<longrightarrow> fo_industry f = industry)"

definition historicalFeatures :: "jstring \<Rightarrow> jstring option \<Rightarrow> featureObs list \<Rightarrow> featureObs list" where
  "historicalFeatures runId industry table =
     take 300 (sort_key (\<lambda>f. - fo_createdAt f) (filter (historicalWhere runId industry) table))"

text \<open>\<open>declaredFeatureSet\<close>, lines 621 to 625.\<close>

definition declaredFeatureSet :: "unicode \<Rightarrow> featureDefinition list \<Rightarrow> jstring list" where
  "declaredFeatureSet U projectFeatureDefs =
     filter (\<lambda>k. k \<noteq> []) (map (\<lambda>d. normalizeFeature U (fd_normalized d)) projectFeatureDefs)"

record suggestion =
  sg_name :: jstring
  sg_normalized :: jstring
  sg_competitors :: "jstring list"
  sg_citations :: "jstring list"
  sg_currentCount :: nat
  sg_historicalCount :: nat

datatype bucket = Current | Historical

text \<open>\<open>Set.add\<close> on a set kept in insertion order.\<close>

definition setAdd :: "'a \<Rightarrow> 'a list \<Rightarrow> 'a list" where
  "setAdd x xs = (if x \<in> set xs then xs else xs @ [x])"

text \<open>\<open>recordFeatureEvidence\<close>, lines 671 to 704.\<close>

definition recordFeatureEvidence ::
  "unicode \<Rightarrow> jstring option \<Rightarrow> jstring option \<Rightarrow> jstring option \<Rightarrow> jstring option \<Rightarrow> bucket \<Rightarrow>
   (jstring \<times> suggestion) list \<Rightarrow> (jstring \<times> suggestion) list" where
  "recordFeatureEvidence U normalized name competitorName sourceId bucket' m =
     (if \<not> truthy normalized \<and> \<not> truthy name then m
      else
        let nrm = normalizeFeature U
                    (case normalized of Some n \<Rightarrow> n
                     | None \<Rightarrow> (case name of Some n \<Rightarrow> n | None \<Rightarrow> []))
        in if nrm = [] then m
           else
             let display = canonicalFeatureName U
                             (case name of Some n \<Rightarrow> n
                              | None \<Rightarrow> (case normalized of Some n \<Rightarrow> n | None \<Rightarrow> nrm));
                 entry = (case map_of m nrm of
                            Some e \<Rightarrow> e
                          | None \<Rightarrow> \<lparr>sg_name = display, sg_normalized = nrm, sg_competitors = [],
                                       sg_citations = [], sg_currentCount = 0,
                                       sg_historicalCount = 0\<rparr>);
                 entry1 = (if truthy competitorName
                           then entry\<lparr>sg_competitors := setAdd (the competitorName) (sg_competitors entry)\<rparr>
                           else entry);
                 entry2 = (case bucket' of
                             Current \<Rightarrow>
                               (let e = entry1\<lparr>sg_currentCount := sg_currentCount entry1 + 1\<rparr>
                                in if truthy sourceId
                                   then e\<lparr>sg_citations := setAdd (the sourceId) (sg_citations e)\<rparr>
                                   else e)
                           | Historical \<Rightarrow>
                               entry1\<lparr>sg_historicalCount := sg_historicalCount entry1 + 1\<rparr>)
             in mapSet nrm entry2 m)"

text \<open>Lines 706 to 723: the current rows, then the historical rows.\<close>

definition evidenceOf :: "unicode \<Rightarrow> bucket \<Rightarrow> (jstring \<times> suggestion) list \<Rightarrow> featureObs \<Rightarrow> (jstring \<times> suggestion) list" where
  "evidenceOf U bucket' m feat =
     recordFeatureEvidence U
       (Some (case fo_definition feat of Some d \<Rightarrow> fd_normalized d | None \<Rightarrow> fo_normalized feat))
       (Some (case fo_definition feat of Some d \<Rightarrow> fd_name d | None \<Rightarrow> fo_name feat))
       (fo_competitorName feat)
       (case bucket' of Current \<Rightarrow> fo_sourceId feat | Historical \<Rightarrow> None)
       bucket' m"

definition featureSuggestionMap ::
  "unicode \<Rightarrow> featureObs list \<Rightarrow> featureObs list \<Rightarrow> (jstring \<times> suggestion) list" where
  "featureSuggestionMap U allFeatures historical =
     foldl (evidenceOf U Historical) (foldl (evidenceOf U Current) [] allFeatures) historical"

text \<open>Lines 725 to 731.\<close>

definition featureSuggestions ::
  "unicode \<Rightarrow> jstring list \<Rightarrow> featureObs list \<Rightarrow> featureObs list \<Rightarrow> suggestion list" where
  "featureSuggestions U declared allFeatures historical =
     take 5 (sort_key (\<lambda>e. - int (sg_currentCount e + sg_historicalCount e))
               (filter (\<lambda>e. sg_normalized e \<notin> set declared)
                  (map snd (featureSuggestionMap U allFeatures historical))))"

text \<open>Lines 733 to 758: one finding for a suggestion, none when it has no mention.\<close>

definition opportunityInsight :: "suggestion \<Rightarrow> finding option" where
  "opportunityInsight s =
     (let marketMentions =
            (if sg_currentCount s > 0
             then [showNat (sg_currentCount s) @ js '' competitor''
                   @ (if sg_currentCount s > 1 then js ''s'' else []) @ js '' in this run'']
             else [])
            @ (if sg_historicalCount s > 0
               then [showNat (sg_historicalCount s) @ js '' sightings in prior analyses'']
               else []);
          competitorExamples = take 3 (sg_competitors s);
          exampleText = (if competitorExamples \<noteq> []
                         then js '' (e.g., '' @ joinWith (js '', '') competitorExamples @ js '')''
                         else [])
      in if marketMentions = [] then None
         else Some \<lparr>f_kind = INSIGHT,
                    f_text = js ''Opportunity: '' @ [34] @ sg_name s @ [34] @ js '' appears across ''
                             @ joinWith (js '' and '') marketMentions @ exampleText
                             @ js ''. Consider adding or strengthening this capability to keep pace with the market.'',
                    f_confidence = (if sg_currentCount s > 0 then 0.7 else 0.55),
                    f_citations = take 3 (sg_citations s)\<rparr>)"

definition opportunityFindings ::
  "unicode \<Rightarrow> featureDefinition list \<Rightarrow> jstring \<Rightarrow> jstring option \<Rightarrow> featureObs list \<Rightarrow> finding list" where
  "opportunityFindings U projectFeatureDefs runId industry table =
     List.map_filter opportunityInsight
       (featureSuggestions U (declaredFeatureSet U projectFeatureDefs)
          (currentFeatures runId table) (historicalFeatures runId industry table))"

text \<open>
  The key under which a row is counted, and the number of rows of a list counted under a
  key.
\<close>

definition evidenceKey :: "unicode \<Rightarrow> featureObs \<Rightarrow> jstring" where
  "evidenceKey U feat =
     normalizeFeature U (case fo_definition feat of Some d \<Rightarrow> fd_normalized d | None \<Rightarrow> fo_normalized feat)"

definition occurrences :: "unicode \<Rightarrow> jstring \<Rightarrow> featureObs list \<Rightarrow> nat" where
  "occurrences U k rows = length (filter (\<lambda>f. evidenceKey U f = k) rows)"

section \<open>Example inputs\<close>

text \<open>An environment in which no phase raises and no phase changes a table.\<close>

definition keepTables :: "db \<Rightarrow> tables" where
  "keepTables d = \<lparr>t_sources = sources d, t_findings = findings d, t_capabilities = capabilities d,
                   t_competitors = competitors d, t_logs = []\<rparr>"

definition quietEnv :: env where
  "quietEnv = \<lparr>now = 1000, stalenessDays = 180, raises = (\<lambda>_. None), writes = (\<lambda>_. keepTables),
               reportId = js ''rep1'', stack = []\<rparr>"


definition demoRun :: "RunStatus \<Rightarrow> run" where
  "demoRun st = \<lparr>run_id = js ''r1'', run_projectId = js ''p1'', run_status = st,
                 run_lastNote = None, run_createdAt = 0, run_startedAt = None,
                 run_completedAt = None\<rparr>"

definition demoSource :: "string \<Rightarrow> source" where
  "demoSource i = \<lparr>src_id = js i, src_runId = js ''r1'', src_url = js ''https://example.com/'' @ js i,
                   src_status = SOURCE_OK, src_notes = None\<rparr>"

definition demoDb :: "RunStatus \<Rightarrow> db" where
  "demoDb st = \<lparr>runs = [demoRun st], runLogs = [],
                sources = [demoSource ''s1'', demoSource ''s2'', demoSource ''s3''],
                findings = [], capabilities = [], competitors = [],
                statusWrites = [], creditsConsumed = []\<rparr>"






definition demoCap :: "string \<Rightarrow> string \<Rightarrow> capability" where
  "demoCap cat n = \<lparr>cap_runId = js ''r1'', cap_category = js cat, cap_name = js n,
                    cap_normalized = js n\<rparr>"

definition demoCaps :: "capability list" where
  "demoCaps = [demoCap ''Security'' ''saml'', demoCap ''API'' ''rest'', demoCap ''Security'' ''saml'',
               demoCap ''API'' ''webhook'', demoCap ''Growth'' ''referral'']"

definition demoSources :: "source list" where
  "demoSources = [demoSource ''s1'', demoSource ''s2'', demoSource ''s3'']"

definition demoGenId :: "nat \<Rightarrow> jstring" where
  "demoGenId n = js ''fd'' @ showNat n"

definition ssoNames :: "jstring list" where
  "ssoNames = [js ''SSO'', js ''Single Sign-On'']"

text \<open>
  Two candidates of one competitor: the first as the regular expressions give it for a page
  that mentions audit logs, the second as the AI path gives it for the name Audit Logs.
\<close>

definition auditCandidates :: "featureCandidate list" where
  "auditCandidates =
     [\<lparr>fc_runId = js ''r1'', fc_name = js ''Audit Logs'', fc_normalized = js ''audit log'',
       fc_sourceId = js ''s1'', fc_description = None, fc_competitorId = Some (js ''c1'')\<rparr>,
      \<lparr>fc_runId = js ''r1'', fc_name = js ''Audit Logs'', fc_normalized = js ''audit logs'',
       fc_sourceId = js ''s2'', fc_description = None, fc_competitorId = Some (js ''c1'')\<rparr>]"

text \<open>The same two candidates for a page of no competitor.\<close>

definition globalCandidates :: "featureCandidate list" where
  "globalCandidates = map (\<lambda>c. c\<lparr>fc_competitorId := None\<rparr>) auditCandidates"

text \<open>
  An environment whose extraction phase raises what the transaction of the two candidates
  raises, on a \<open>Feature\<close> table that is empty.
\<close>

definition auditEnv :: env where
  "auditEnv =
     quietEnv\<lparr>raises := (\<lambda>ph. if ph = Extraction
                               then (case fst (persistedFeatures latin demoGenId auditCandidates [] []) of
                                       Inl err \<Rightarrow> Some err | Inr _ \<Rightarrow> None)
                               else None)\<rparr>"

definition demoResult :: "string \<Rightarrow> string \<Rightarrow> searchResult" where
  "demoResult t u = \<lparr>sr_title = js t, sr_url = js u, sr_snippet = None, sr_publishedAt = None,
                     sr_source = None\<rparr>"

text \<open>On these URLs, which have no fragment, \<open>normalizeUrl\<close> changes nothing.\<close>

definition demoNormalizeUrl :: "jstring \<Rightarrow> jstring" where
  "demoNormalizeUrl u = u"

definition demoResults :: "searchResult list" where
  "demoResults =
     [demoResult ''Alpha'' ''https://a.example/'', demoResult ''Beta'' ''https://b.example/'',
      demoResult ''Gamma'' ''https://c.example/'', demoResult ''Delta'' ''https://d.example/'']"

section \<open>Auxiliary definitions for the proofs\<close>

definition afterStatus ::
  "int \<Rightarrow> jstring \<Rightarrow> RunStatus \<Rightarrow> jstring option \<Rightarrow> int option \<Rightarrow> db \<Rightarrow> db" where
  "afterStatus t runId st nt ts d = snd (setStatus t runId st nt ts d)"

definition afterWork :: "env \<Rightarrow> phase \<Rightarrow> db \<Rightarrow> db" where
  "afterWork e ph d = snd (work e ph d)"

text \<open>The log line of the guardrail step for a store, and the store with that line.\<close>

definition guardrailLine :: "env \<Rightarrow> jstring \<Rightarrow> db \<Rightarrow> jstring" where
  "guardrailLine e runId d =
     (if g_issues (runGuardrails runId (stalenessDays e) d) \<noteq> []
      then js ''Guardrails: '' @ joinWith (js ''; '') (g_issues (runGuardrails runId (stalenessDays e) d))
      else js ''Guardrails: All checks passed'')"

definition afterGuard :: "env \<Rightarrow> jstring \<Rightarrow> db \<Rightarrow> db" where
  "afterGuard e runId d = appendLog runId (guardrailLine e runId d) d"

text \<open>
  The store that the guardrail step reads: the one left by the thirteen steps before it.
\<close>

definition atGuardrails :: "env \<Rightarrow> jstring \<Rightarrow> db \<Rightarrow> db" where
  "atGuardrails e runId d = snd (seqAll (take 13 (steps e runId)) d)"

definition hasRun :: "jstring \<Rightarrow> db \<Rightarrow> bool" where
  "hasRun runId d = (findRun runId d \<noteq> None)"

definition demoDefinition :: "string \<Rightarrow> featureDefinition" where
  "demoDefinition n = \<lparr>fd_id = js ''fd-'' @ js n, fd_name = js n, fd_normalized = js n,
                        fd_description = None, fd_category = None, fd_origin = COMPETITOR,
                        fd_aliases = []\<rparr>"

definition demoObs :: "string \<Rightarrow> string \<Rightarrow> string option \<Rightarrow> int \<Rightarrow> string \<Rightarrow> featureObs" where
  "demoObs runId n src t ind =
     \<lparr>fo_runId = js runId, fo_name = js n, fo_normalized = js n, fo_sourceId = map_option js src,
      fo_createdAt = t, fo_definition = Some (demoDefinition n), fo_competitorName = None,
      fo_industry = Some (js ind)\<rparr>"

text \<open>
  Two earlier runs of the same industry with 301 feature rows: the later run \<open>h1\<close> saw one
  feature at 300 competitors, the run \<open>h0\<close> before it another feature.
\<close>

definition bigTable :: "featureObs list" where
  "bigTable =
     map (\<lambda>i. (demoObs ''h1'' ''alpha'' None 2 ''saas'')\<lparr>fo_competitorName := Some (showNat i)\<rparr>)
         [0..<300]
     @ [demoObs ''h0'' ''beta'' None 1 ''saas'']"

text \<open>
  A run with two rows, and three earlier rows: one for a feature of the run, one for a
  feature the run has not seen, and one of another industry.
\<close>

definition smallTable :: "featureObs list" where
  "smallTable =
     [demoObs ''r1'' ''alpha'' (Some ''s1'') 5 ''saas'', demoObs ''r1'' ''beta'' (Some ''s2'') 5 ''saas'',
      demoObs ''h1'' ''beta'' None 2 ''saas'', demoObs ''h1'' ''delta'' None 2 ''saas'',
      demoObs ''h2'' ''gamma'' None 1 ''fintech'']"

definition clean :: "jstring \<Rightarrow> bool" where
  "clean s \<longleftrightarrow> (\<forall>c \<in> set s. isAlnumPlus c \<or> c = 32)"

fun noRun :: "jstring \<Rightarrow> bool" where
  "noRun [] = True"
| "noRun [c] = True"
| "noRun (a # b # cs) = (\<not> (isSpace a \<and> isSpace b) \<and> noRun (b # cs))"

definition trimmed :: "jstring \<Rightarrow> bool" where
  "trimmed s \<longleftrightarrow> s = [] \<or> (\<not> isSpace (hd s) \<and> \<not> isSpace (last s))"




text \<open>The least number of code units that a match of a pattern takes.\<close>

fun minList :: "nat list \<Rightarrow> nat" where
  "minList [] = 0"
| "minList [x] = x"
| "minList (x # y # ys) = min x (minList (y # ys))"

fun minLen :: "rx \<Rightarrow> nat" where
  "minLen (Lit s) = length s"
| "minLen (Rep cls lo hi) = lo"
| "minLen (Alt rs) = minList (map minLen rs)"
| "minLen (Seq rs) = sum_list (map minLen rs)"
| "minLen (Grp n r) = minLen r"
| "minLen WordB = 0"




section \<open>Auxiliary definitions for the opportunity insights\<close>

text \<open>
  What \<open>recordFeatureEvidence\<close> does to the entry of a key: the entry of a key seen for the
  first time, and the update for one more row. \<open>citedBy\<close> is the set of sources of the rows
  counted under a key, and \<open>sugInv\<close> the invariant of the map of suggestions: one entry for
  every key seen, with the numbers of rows seen in the run and in the earlier rows.
\<close>

definition touch :: "bucket \<Rightarrow> featureObs \<Rightarrow> suggestion \<Rightarrow> suggestion" where
  "touch b f e =
     (let e1 = (if truthy (fo_competitorName f)
                then e\<lparr>sg_competitors := setAdd (the (fo_competitorName f)) (sg_competitors e)\<rparr>
                else e)
      in case b of
           Current \<Rightarrow>
             (let e' = e1\<lparr>sg_currentCount := sg_currentCount e1 + 1\<rparr>
              in if truthy (fo_sourceId f)
                 then e'\<lparr>sg_citations := setAdd (the (fo_sourceId f)) (sg_citations e')\<rparr>
                 else e')
         | Historical \<Rightarrow> e1\<lparr>sg_historicalCount := sg_historicalCount e1 + 1\<rparr>)"

definition freshEntry :: "unicode \<Rightarrow> featureObs \<Rightarrow> suggestion" where
  "freshEntry U f =
     \<lparr>sg_name = canonicalFeatureName U
                   (case fo_definition f of Some d \<Rightarrow> fd_name d | None \<Rightarrow> fo_name f),
      sg_normalized = evidenceKey U f, sg_competitors = [], sg_citations = [],
      sg_currentCount = 0, sg_historicalCount = 0\<rparr>"

definition citedBy :: "unicode \<Rightarrow> jstring \<Rightarrow> featureObs list \<Rightarrow> jstring set" where
  "citedBy U k rows = {s. \<exists>f \<in> set rows. evidenceKey U f = k \<and> fo_sourceId f = Some s}"

definition sugInv :: "unicode \<Rightarrow> featureObs list \<Rightarrow> featureObs list \<Rightarrow> (jstring \<times> suggestion) list \<Rightarrow> bool" where
  "sugInv U cur hist m \<longleftrightarrow>
     distinct (map fst m) \<and>
     (\<forall>(k, e) \<in> set m. k \<noteq> [] \<and> sg_normalized e = k \<and>
         sg_currentCount e = occurrences U k cur \<and> sg_historicalCount e = occurrences U k hist \<and>
         set (sg_citations e) \<subseteq> citedBy U k cur) \<and>
     (\<forall>k. k \<noteq> [] \<longrightarrow> (k \<in> fst ` set m) = (0 < occurrences U k cur + occurrences U k hist))"

text \<open>
  The suggestions of a run, the number of rows counted under a key, the keys that stand
  for a suggestion, and the earlier rows that the limit of 300 leaves out.
\<close>

definition opportunitySuggestions ::
  "unicode \<Rightarrow> featureDefinition list \<Rightarrow> jstring \<Rightarrow> jstring option \<Rightarrow> featureObs list \<Rightarrow> suggestion list" where
  "opportunitySuggestions U projectFeatureDefs runId industry table =
     featureSuggestions U (declaredFeatureSet U projectFeatureDefs)
       (currentFeatures runId table) (historicalFeatures runId industry table)"

definition mentions :: "unicode \<Rightarrow> jstring \<Rightarrow> jstring option \<Rightarrow> featureObs list \<Rightarrow> jstring \<Rightarrow> nat" where
  "mentions U runId industry table k =
     occurrences U k (currentFeatures runId table)
     + occurrences U k (historicalFeatures runId industry table)"

definition candidate ::
  "unicode \<Rightarrow> featureDefinition list \<Rightarrow> jstring \<Rightarrow> jstring option \<Rightarrow> featureObs list \<Rightarrow> jstring \<Rightarrow> bool" where
  "candidate U projectFeatureDefs runId industry table k \<longleftrightarrow>
     k \<noteq> [] \<and> k \<notin> set (declaredFeatureSet U projectFeatureDefs)
     \<and> 0 < mentions U runId industry table k"

definition olderRows :: "jstring \<Rightarrow> jstring option \<Rightarrow> featureObs list \<Rightarrow> featureObs list" where
  "olderRows runId industry table =
     drop 300 (sort_key (\<lambda>f. - fo_createdAt f) (filter (historicalWhere runId industry) table))"

section \<open>Status transitions of the orchestrator\<close>

lemma find_map_same_id:
  assumes "\<And>r. run_id (f r) = run_id r"
  shows "find (\<lambda>r. run_id r = runId) (map (\<lambda>r. if run_id r = runId then f r else r) rs)
         = map_option f (find (\<lambda>r. run_id r = runId) rs)"
  using assms by (induction rs) auto

lemma setStatus_found:
  "hasRun runId d \<Longrightarrow> setStatus t runId st nt ts d = (None, afterStatus t runId st nt ts d)"
  by (auto simp: hasRun_def afterStatus_def setStatus_def updateRun_def Let_def
           split: option.splits)

lemma afterStatus_missing:
  "\<not> hasRun runId d \<Longrightarrow> afterStatus t runId st nt ts d = d"
  by (simp add: hasRun_def afterStatus_def setStatus_def updateRun_def)

lemma afterStatus_found:
  "hasRun runId d \<Longrightarrow>
   \<exists>f. (\<forall>r. run_id (f r) = run_id r \<and> run_status (f r) = st) \<and>
       afterStatus t runId st nt ts d =
         d\<lparr>runs := map (\<lambda>r. if run_id r = runId then f r else r) (runs d),
            statusWrites := statusWrites d @ [(runId, st)]\<rparr>"
  unfolding hasRun_def afterStatus_def setStatus_def updateRun_def Let_def
  by (cases "findRun runId d"; simp)
     (rule exI[where x = "\<lambda>r. (if st = COMPLETE \<or> st = ERROR \<or> st = SKIPPED
                        then (\<lambda>r. r\<lparr>run_completedAt := Some t\<rparr>) else (\<lambda>r. r))
           ((case ts of Some x \<Rightarrow> if st = DISCOVERING \<and> x \<noteq> 0
                                   then (\<lambda>r. r\<lparr>run_startedAt := Some x\<rparr>) else (\<lambda>r. r)
                      | None \<Rightarrow> (\<lambda>r. r)) (r\<lparr>run_status := st, run_lastNote := nt\<rparr>))"],
      auto split: option.splits)

lemma hasRun_afterStatus [simp]:
  "hasRun runId (afterStatus t runId st nt ts d) = hasRun runId d"
proof (cases "hasRun runId d")
  case True
  from afterStatus_found[OF True, of st t nt ts] obtain f where
    f: "\<forall>r. run_id (f r) = run_id r \<and> run_status (f r) = st"
    and a: "afterStatus t runId st nt ts d =
         d\<lparr>runs := map (\<lambda>r. if run_id r = runId then f r else r) (runs d),
            statusWrites := statusWrites d @ [(runId, st)]\<rparr>" by blast
  from True f show ?thesis
    unfolding a hasRun_def findRun_def by (simp add: find_map_same_id)
next
  case False
  then show ?thesis by (simp add: afterStatus_missing)
qed

lemma persisted_afterStatus:
  assumes "hasRun runId d"
  shows "persisted runId (afterStatus t runId st nt ts d) = persisted runId d @ [st]"
proof -
  from afterStatus_found[OF assms, of st t nt ts] obtain f where
    a: "afterStatus t runId st nt ts d =
         d\<lparr>runs := map (\<lambda>r. if run_id r = runId then f r else r) (runs d),
            statusWrites := statusWrites d @ [(runId, st)]\<rparr>" by blast
  show ?thesis unfolding a persisted_def by simp
qed

lemma status_afterStatus:
  assumes "hasRun runId d"
  shows "map_option run_status (findRun runId (afterStatus t runId st nt ts d)) = Some st"
proof -
  from afterStatus_found[OF assms, of st t nt ts] obtain f where
    f: "\<forall>r. run_id (f r) = run_id r \<and> run_status (f r) = st"
    and a: "afterStatus t runId st nt ts d =
         d\<lparr>runs := map (\<lambda>r. if run_id r = runId then f r else r) (runs d),
            statusWrites := statusWrites d @ [(runId, st)]\<rparr>" by blast
  from assms f show ?thesis
    unfolding a hasRun_def findRun_def by (auto simp: find_map_same_id)
qed

lemma unchanged_afterStatus [simp]:
  "sources (afterStatus t runId st nt ts d) = sources d"
  "findings (afterStatus t runId st nt ts d) = findings d"
  "capabilities (afterStatus t runId st nt ts d) = capabilities d"
  "competitors (afterStatus t runId st nt ts d) = competitors d"
  "runLogs (afterStatus t runId st nt ts d) = runLogs d"
  "creditsConsumed (afterStatus t runId st nt ts d) = creditsConsumed d"
  using afterStatus_found[of runId d st t nt ts] afterStatus_missing[of runId d t st nt ts]
  by (cases "hasRun runId d"; auto)+

lemma work_eq: "work e ph d = (raises e ph, afterWork e ph d)"
  by (simp add: afterWork_def work_def Let_def)

lemma afterWork_eq:
  "afterWork e ph d =
     d\<lparr>sources := t_sources (writes e ph d), findings := t_findings (writes e ph d),
       capabilities := t_capabilities (writes e ph d), competitors := t_competitors (writes e ph d),
       runLogs := runLogs d @ t_logs (writes e ph d)\<rparr>"
  by (simp add: afterWork_def work_def Let_def)

lemma afterWork_result [simp]:
  "hasRun runId (afterWork e ph d) = hasRun runId d"
  "persisted runId (afterWork e ph d) = persisted runId d"
  "runs (afterWork e ph d) = runs d"
  "statusWrites (afterWork e ph d) = statusWrites d"
  "runLogs (afterWork e ph d) = runLogs d @ t_logs (writes e ph d)"
  by (simp_all add: afterWork_eq hasRun_def findRun_def persisted_def)

lemma guardrailStep_eq:
  "guardrailStep e runId d =
     (case raises e Guardrails of Some err \<Rightarrow> (Some err, d) | None \<Rightarrow> (None, afterGuard e runId d))"
  by (simp add: afterGuard_def guardrailLine_def guardrailStep_def Let_def split: option.splits)

lemma afterGuard_eq:
  "afterGuard e runId d = d\<lparr>runLogs := runLogs d @ [(runId, guardrailLine e runId d)]\<rparr>"
  by (simp add: afterGuard_def appendLog_def)

lemma afterGuard_result [simp]:
  "hasRun runId (afterGuard e runId d) = hasRun runId d"
  "persisted runId (afterGuard e runId d) = persisted runId d"
  "runs (afterGuard e runId d) = runs d"
  "statusWrites (afterGuard e runId d) = statusWrites d"
  "runLogs (afterGuard e runId d) = runLogs d @ [(runId, guardrailLine e runId d)]"
  by (simp_all add: afterGuard_eq hasRun_def findRun_def persisted_def)

lemma seqAll_setStatus:
  "hasRun runId d \<Longrightarrow>
   seqAll (setStatus t runId st nt ts # as) d = seqAll as (afterStatus t runId st nt ts d)"
  by (simp add: setStatus_found)

lemma seqAll_setStatus_fun:
  "hasRun runId d \<Longrightarrow>
   seqAll ((\<lambda>x. setStatus t runId st (nt x) ts x) # as) d
     = seqAll as (afterStatus t runId st (nt d) ts d)"
  by (simp add: setStatus_found)

lemma seqAll_work:
  "seqAll (work e ph # as) d =
     (case raises e ph of None \<Rightarrow> seqAll as (afterWork e ph d) | Some m \<Rightarrow> (Some m, afterWork e ph d))"
  by (simp add: work_eq split: option.splits)

lemma seqAll_guard:
  "seqAll (guardrailStep e runId # as) d =
     (case raises e Guardrails of None \<Rightarrow> seqAll as (afterGuard e runId d) | Some m \<Rightarrow> (Some m, d))"
  by (simp add: guardrailStep_eq split: option.splits)

lemmas pipeline_steps =
  seqAll_setStatus seqAll_setStatus_fun seqAll_work seqAll_guard

lemma pipeline_returns:
  assumes "hasRun runId d" and "fst (pipeline e runId d) = None"
  shows "persisted runId (snd (pipeline e runId d)) = persisted runId d @
           [DISCOVERING, EXTRACTING, EXTRACTING, SYNTHESIZING, SYNTHESIZING, QA, QA, COMPLETE]"
  using assms unfolding pipeline_def steps_def
  by (simp add: pipeline_steps persisted_afterStatus del: seqAll.simps(2) split: option.splits)

lemma hasRun_pipeline:
  assumes "hasRun runId d"
  shows "hasRun runId (snd (pipeline e runId d))"
  using assms unfolding pipeline_def steps_def
  by (simp add: pipeline_steps del: seqAll.simps(2) split: option.splits)

lemma runGuardrails_cong:
  "sources d' = sources d \<Longrightarrow> findings d' = findings d \<Longrightarrow> capabilities d' = capabilities d \<Longrightarrow>
   competitors d' = competitors d \<Longrightarrow> runGuardrails runId n d' = runGuardrails runId n d"
  by (simp only: runGuardrails_def)



lemma seqAll_append:
  "seqAll (as @ bs) d =
     (case seqAll as d of (Some err, d') \<Rightarrow> (Some err, d') | (None, d') \<Rightarrow> seqAll bs d')"
  by (induction as arbitrary: d) (auto split: prod.splits option.splits)

lemma steps_split:
  "steps e runId = take 13 (steps e runId) @
     [guardrailStep e runId,
      setStatus (now e) runId COMPLETE (Some (js ''Report ready: '' @ reportId e)) None,
      work e Notification]"
  by (simp add: steps_def)

lemma reaches_guardrails:
  assumes "hasRun runId d" and "\<forall>ph. ph \<noteq> Guardrails \<longrightarrow> raises e ph = None"
  shows "seqAll (take 13 (steps e runId)) d = (None, atGuardrails e runId d)"
    and "hasRun runId (atGuardrails e runId d)"
    and "persisted runId (atGuardrails e runId d) = persisted runId d @
           [DISCOVERING, EXTRACTING, EXTRACTING, SYNTHESIZING, SYNTHESIZING, QA, QA]"
proof -
  have r: "raises e Discovery = None" "raises e Fetching = None" "raises e Extraction = None"
    "raises e Synthesis = None" "raises e Reporting = None" "raises e ChangeDetection = None"
    using assms(2) by simp_all
  have f: "fst (seqAll (take 13 (steps e runId)) d) = None"
    using assms(1) unfolding steps_def
    by (simp add: pipeline_steps r del: seqAll.simps(2))
  then show "seqAll (take 13 (steps e runId)) d = (None, atGuardrails e runId d)"
    unfolding atGuardrails_def by (cases "seqAll (take 13 (steps e runId)) d") simp
  show "hasRun runId (atGuardrails e runId d)"
    using assms(1) unfolding atGuardrails_def steps_def
    by (simp add: pipeline_steps r del: seqAll.simps(2))
  show "persisted runId (atGuardrails e runId d) = persisted runId d @
           [DISCOVERING, EXTRACTING, EXTRACTING, SYNTHESIZING, SYNTHESIZING, QA, QA]"
    using assms(1) unfolding atGuardrails_def steps_def
    by (simp add: pipeline_steps r persisted_afterStatus del: seqAll.simps(2))
qed

lemma pipeline_from_guardrails:
  assumes "hasRun runId d" and "\<forall>ph. ph \<noteq> Guardrails \<longrightarrow> raises e ph = None"
  shows "pipeline e runId d =
     (case raises e Guardrails of
        Some msg \<Rightarrow> (Some msg, atGuardrails e runId d)
      | None \<Rightarrow>
          (None, afterWork e Notification
                   (afterStatus (now e) runId COMPLETE (Some (js ''Report ready: '' @ reportId e)) None
                      (afterGuard e runId (atGuardrails e runId d)))))"
proof -
  have n: "raises e Notification = None" using assms(2) by simp
  have "pipeline e runId d =
     seqAll [guardrailStep e runId,
             setStatus (now e) runId COMPLETE (Some (js ''Report ready: '' @ reportId e)) None,
             work e Notification] (atGuardrails e runId d)"
    unfolding pipeline_def
    by (subst steps_split) (simp only: seqAll_append reaches_guardrails(1)[OF assms] prod.case option.case)
  also have "\<dots> = (case raises e Guardrails of
        Some msg \<Rightarrow> (Some msg, atGuardrails e runId d)
      | None \<Rightarrow>
          (None, afterWork e Notification
                   (afterStatus (now e) runId COMPLETE (Some (js ''Report ready: '' @ reportId e)) None
                      (afterGuard e runId (atGuardrails e runId d)))))"
    using reaches_guardrails(2)[OF assms]
    by (simp add: pipeline_steps n del: seqAll.simps(2) split: option.splits)
  finally show ?thesis .
qed

lemma pipeline_quiet:
  assumes "hasRun runId d" and "\<forall>ph. raises e ph = None"
  shows "fst (pipeline e runId d) = None"
    and "map_option run_status (findRun runId (snd (pipeline e runId d))) = Some COMPLETE"
    and "(runId, guardrailLine e runId (atGuardrails e runId d))
           \<in> set (runLogs (snd (pipeline e runId d)))"
proof -
  have a: "\<forall>ph. ph \<noteq> Guardrails \<longrightarrow> raises e ph = None" using assms(2) by simp
  have g: "raises e Guardrails = None" using assms(2) by simp
  have f: "findRun runId (afterWork e ph x) = findRun runId x" for ph x
    by (simp add: findRun_def)
  note p = pipeline_from_guardrails[OF assms(1) a]
  show "fst (pipeline e runId d) = None" by (simp add: p g)
  show "map_option run_status (findRun runId (snd (pipeline e runId d))) = Some COMPLETE"
    using reaches_guardrails(2)[OF assms(1) a] by (simp add: p g f status_afterStatus)
  show "(runId, guardrailLine e runId (atGuardrails e runId d))
           \<in> set (runLogs (snd (pipeline e runId d)))"
    by (simp add: p g)
qed




text \<open>
  Claim C1, as amended. A call of \<open>orchestrateRun\<close> that returns without an exception found
  its run; if the run was \<open>SKIPPED\<close> at entry no status is persisted, otherwise the
  statuses persisted by \<open>setStatus\<close> are, in this order, \<open>DISCOVERING\<close>, \<open>EXTRACTING\<close>
  twice, \<open>SYNTHESIZING\<close> twice, \<open>QA\<close> twice and \<open>COMPLETE\<close>: none is omitted and none is
  out of order.
\<close>

theorem orchestrateRun_status_sequence:
  assumes "fst (orchestrateRun e runId d) = None"
  shows "\<exists>r. findRun runId d = Some r \<and>
           persisted runId (snd (orchestrateRun e runId d)) = persisted runId d @
             (if run_status r = SKIPPED then []
              else [DISCOVERING, EXTRACTING, EXTRACTING, SYNTHESIZING, SYNTHESIZING,
                    QA, QA, COMPLETE])"
proof (cases "findRun runId d")
  case None
  with assms show ?thesis
    by (simp add: orchestrateRun_def Let_def setStatus_def updateRun_def split: prod.splits)
next
  case (Some r)
  show ?thesis
  proof (cases "run_status r = SKIPPED")
    case True
    with Some show ?thesis by (simp add: orchestrateRun_def)
  next
    case False
    obtain x d' where p: "pipeline e runId d = (x, d')" by (cases "pipeline e runId d")
    have found: "hasRun runId d" using Some by (simp add: hasRun_def)
    show ?thesis
    proof (cases x)
      case None
      with p pipeline_returns[OF found, of e] \<open>findRun runId d = Some r\<close> False show ?thesis
        by (simp add: orchestrateRun_def)
    next
      case (Some msg)
      with p assms \<open>findRun runId d = Some r\<close> False show ?thesis
        by (auto simp: orchestrateRun_def split: prod.splits option.splits)
    qed
  qed
qed









lemma demo_findRun: "findRun (js ''r1'') (demoDb st) = Some (demoRun st)"
  by (simp add: findRun_def demoDb_def demoRun_def)

lemma demo_hasRun: "hasRun (js ''r1'') (demoDb st)"
  by (simp add: hasRun_def demo_findRun)

lemma quiet_raises: "\<forall>ph. raises quietEnv ph = None"
  by (simp add: quietEnv_def)

text \<open>
  A run that is \<open>SKIPPED\<close> at entry returns without an exception and persists no status at
  all.
\<close>

theorem orchestrateRun_skipped_counterexample:
  "fst (orchestrateRun quietEnv (js ''r1'') (demoDb SKIPPED)) = None \<and>
   persisted (js ''r1'') (snd (orchestrateRun quietEnv (js ''r1'') (demoDb SKIPPED))) = []"
  by (simp add: orchestrateRun_def demo_findRun) (simp add: demoRun_def persisted_def demoDb_def)

theorem orchestrateRun_status_sequence_witness:
  "fst (orchestrateRun quietEnv (js ''r1'') (demoDb NEW)) = None \<and>
   persisted (js ''r1'') (snd (orchestrateRun quietEnv (js ''r1'') (demoDb NEW))) =
     [DISCOVERING, EXTRACTING, EXTRACTING, SYNTHESIZING, SYNTHESIZING, QA, QA, COMPLETE]"
proof -
  have h: "fst (orchestrateRun quietEnv (js ''r1'') (demoDb NEW)) = None"
    using pipeline_quiet(1)[OF demo_hasRun quiet_raises, of NEW]
    by (cases "pipeline quietEnv (js ''r1'') (demoDb NEW)")
       (simp add: orchestrateRun_def demo_findRun demoRun_def)
  have p: "persisted (js ''r1'') (demoDb NEW) = []"
    by (simp add: persisted_def demoDb_def)
  from orchestrateRun_status_sequence[OF h] h p show ?thesis
    by (simp add: demo_findRun) (simp add: demoRun_def)
qed











section \<open>Strings\<close>

lemma js_Cons_ne: "(js (c # cs) = []) = False"
  by (simp add: js_def)

lemma js_eq_iff: "(js a = js b) = (a = b)"
  unfolding js_def by (rule inj_map_eq_map) (simp add: inj_def)

section \<open>Idempotence of \<open>normalizeFeature\<close>\<close>

lemma alnum_not_space: "isAlnumPlus c \<Longrightarrow> \<not> isSpace c"
  by (auto simp: isAlnumPlus_def isSpace_def)

lemma alnum_ascii: "isAlnumPlus c \<Longrightarrow> c < 128"
  by (auto simp: isAlnumPlus_def)

lemma space_32: "isSpace 32"
  by (simp add: isSpace_def)

lemma clean_space: "clean s \<Longrightarrow> c \<in> set s \<Longrightarrow> isSpace c = (c = 32)"
  by (auto simp: clean_def alnum_not_space space_32)

lemma clean_replaceNonAlnum: "clean (replaceNonAlnum s)"
  by (auto simp: clean_def replaceNonAlnum_def)

lemma clean_Cons: "clean (c # cs) = ((isAlnumPlus c \<or> c = 32) \<and> clean cs)"
  by (auto simp: clean_def)

lemma clean_dropWhile: "clean s \<Longrightarrow> clean (dropWhile P s)"
  by (auto simp: clean_def dest: set_dropWhileD)

lemma clean_collapseSpaces: "clean s \<Longrightarrow> clean (collapseSpaces s)"
  by (induction s rule: collapseSpaces.induct) (auto simp: clean_Cons clean_dropWhile)

lemma collapse_head_gen:
  "t = [] \<or> \<not> isSpace (hd t) \<Longrightarrow> collapseSpaces t = [] \<or> \<not> isSpace (hd (collapseSpaces t))"
  by (cases t) auto

lemma dropWhile_head: "dropWhile P s = [] \<or> \<not> P (hd (dropWhile P s))"
  using hd_dropWhile by blast

lemma collapse_head:
  "collapseSpaces (dropWhile isSpace s) = [] \<or> \<not> isSpace (hd (collapseSpaces (dropWhile isSpace s)))"
  by (rule collapse_head_gen[OF dropWhile_head])

lemma noRun_Cons: "noRun (a # s) = ((s = [] \<or> \<not> (isSpace a \<and> isSpace (hd s))) \<and> noRun s)"
  by (cases s) auto

lemma noRun_collapseSpaces: "noRun (collapseSpaces s)"
proof (induction s rule: collapseSpaces.induct)
  case 1
  then show ?case by simp
next
  case (2 c cs)
  show ?case
  proof (cases "isSpace c")
    case True
    with 2 collapse_head[of cs] show ?thesis by (auto simp: noRun_Cons)
  next
    case False
    with 2 show ?thesis by (auto simp: noRun_Cons)
  qed
qed

lemma collapseSpaces_id: "clean s \<Longrightarrow> noRun s \<Longrightarrow> collapseSpaces s = s"
proof (induction s rule: collapseSpaces.induct)
  case 1
  then show ?case by simp
next
  case (2 c cs)
  show ?case
  proof (cases "isSpace c")
    case True
    with "2.prems" have "cs = [] \<or> \<not> isSpace (hd cs)" by (auto simp: noRun_Cons)
    then have d: "dropWhile isSpace cs = cs" by (cases cs) auto
    from True "2.prems" have "c = 32" using clean_space[of "c # cs" c] by simp
    with True d 2 show ?thesis by (simp add: clean_Cons noRun_Cons)
  next
    case False
    with 2 show ?thesis by (simp add: clean_Cons noRun_Cons)
  qed
qed

lemma noRun_drop: "noRun s \<Longrightarrow> noRun (drop n s)"
proof (induction s arbitrary: n)
  case Nil
  then show ?case by simp
next
  case (Cons a s)
  then show ?case by (cases n) (auto simp: noRun_Cons)
qed

lemma noRun_take: "noRun s \<Longrightarrow> noRun (take n s)"
proof (induction s arbitrary: n)
  case Nil
  then show ?case by simp
next
  case (Cons a s)
  show ?case
  proof (cases n)
    case 0
    then show ?thesis by simp
  next
    case (Suc m)
    have "take m s = [] \<or> hd (take m s) = hd s" by (cases m; cases s) auto
    with Cons Suc show ?thesis by (auto simp: noRun_Cons)
  qed
qed

lemma dropWhile_is_drop: "\<exists>n. dropWhile P s = drop n s"
  by (metis dropWhile_eq_drop)

lemma rev_drop_rev: "rev (drop k (rev t)) = take (length t - k) t"
  by (simp add: rev_drop)

lemma trim_is_slice: "\<exists>n m. trim s = take m (drop n s)"
proof -
  obtain n where n: "dropWhile isSpace s = drop n s" using dropWhile_is_drop by blast
  define t where "t = drop n s"
  obtain k where k: "dropWhile isSpace (rev t) = drop k (rev t)"
    using dropWhile_is_drop by blast
  have "trim s = rev (drop k (rev t))" by (simp add: trim_def n k t_def[symmetric])
  also have "\<dots> = take (length t - k) t" by (rule rev_drop_rev)
  finally show ?thesis unfolding t_def by blast
qed

lemma noRun_trim: "noRun s \<Longrightarrow> noRun (trim s)"
  using trim_is_slice[of s] by (auto simp: noRun_take noRun_drop)

lemma clean_trim: "clean s \<Longrightarrow> clean (trim s)"
proof -
  assume c: "clean s"
  obtain n m where t: "trim s = take m (drop n s)" using trim_is_slice by blast
  have "set (trim s) \<subseteq> set s"
    unfolding t using set_take_subset set_drop_subset by fast
  with c show ?thesis unfolding clean_def by blast
qed

lemma trimmed_trim: "trimmed (trim s)"
proof -
  define a where "a = dropWhile isSpace s"
  define b where "b = dropWhile isSpace (rev a)"
  have t: "trim s = rev b" by (simp add: trim_def a_def b_def)
  show ?thesis
  proof (cases "b = []")
    case True
    with t show ?thesis by (simp add: trimmed_def)
  next
    case False
    have "b = [] \<or> \<not> isSpace (hd b)" unfolding b_def by (rule dropWhile_head)
    with False have 1: "\<not> isSpace (hd b)" by simp
    have l: "last (rev b) = hd b" using False by (simp add: last_rev)
    have an: "a \<noteq> []" using False unfolding b_def by (cases a) auto
    have "a = [] \<or> \<not> isSpace (hd a)" unfolding a_def by (rule dropWhile_head)
    with an have 2: "\<not> isSpace (hd a)" by simp
    obtain k where k: "b = drop k (rev a)"
      unfolding b_def using dropWhile_is_drop by blast
    have r: "rev b = take (length a - k) a" unfolding k by (rule rev_drop_rev)
    from False have "rev b \<noteq> []" by simp
    with r have "0 < length a - k" by (cases "length a - k") auto
    then have "hd (rev b) = hd a" using r an by (simp add: hd_take)
    with 1 2 l False t show ?thesis by (simp add: trimmed_def)
  qed
qed

lemma dropWhile_none: "s = [] \<or> \<not> P (hd s) \<Longrightarrow> dropWhile P s = s"
  by (cases s) auto

lemma trim_id: "trimmed s \<Longrightarrow> trim s = s"
proof (cases "s = []")
  case True
  then show ?thesis by (simp add: trim_def)
next
  case False
  assume "trimmed s"
  with False have h: "\<not> isSpace (hd s)" and l: "\<not> isSpace (last s)" by (auto simp: trimmed_def)
  have 1: "dropWhile isSpace s = s" using h by (intro dropWhile_none) simp
  have "hd (rev s) = last s" using False by (simp add: hd_rev)
  then have 2: "dropWhile isSpace (rev s) = rev s" using l by (intro dropWhile_none) simp
  show ?thesis by (simp add: trim_def 1 2)
qed

definition normalForm :: "jstring \<Rightarrow> bool" where
  "normalForm s \<longleftrightarrow> clean s \<and> noRun s \<and> trimmed s"

lemma normalForm_normalizeFeature: "normalForm (normalizeFeature U x)"
  unfolding normalForm_def normalizeFeature_def
  by (intro conjI clean_trim clean_collapseSpaces clean_replaceNonAlnum noRun_trim
        noRun_collapseSpaces trimmed_trim)

lemma clean_ascii: "clean s \<Longrightarrow> \<forall>c \<in> set s. c < 128"
  by (auto simp: clean_def dest: alnum_ascii)

lemma normalizeFeature_fixes:
  assumes "respectsAscii U" and "normalForm s"
  shows "normalizeFeature U s = s"
proof -
  from assms(2) have c: "clean s" and r: "noRun s" and t: "trimmed s"
    by (simp_all add: normalForm_def)
  have a: "\<forall>c \<in> set s. c < 128" by (rule clean_ascii[OF c])
  have 1: "nfkd U s = s" using assms(1) a by (simp add: respectsAscii_def)
  have 2: "stripMarks s = s" using a by (auto simp: stripMarks_def filter_id_conv)
  have "asciiLower x = x" if "x \<in> set s" for x
    using c that by (auto simp: clean_def asciiLower_def isAlnumPlus_def)
  then have "map asciiLower s = s" by (simp add: map_idI)
  then have 3: "toLowerCase U s = s" using assms(1) a by (simp add: respectsAscii_def)
  have "(if isAlnumPlus x then x else 32) = x" if "x \<in> set s" for x
    using c that by (auto simp: clean_def)
  then have 4: "replaceNonAlnum s = s" unfolding replaceNonAlnum_def by (simp add: map_idI)
  show ?thesis
    by (simp add: normalizeFeature_def 1 2 3 4 collapseSpaces_id[OF c r] trim_id[OF t])
qed

lemma ascii_literal: "\<forall>c \<in> set (js ''Cafe''). c < 128" "\<forall>c \<in> set (js ''cafe''). c < 128"
  by (simp_all add: js_def)

lemma normalizeFeature_ascii:
  assumes "respectsAscii U" and "\<forall>c \<in> set s. c < 128"
  shows "normalizeFeature U s = trim (collapseSpaces (replaceNonAlnum (map asciiLower s)))"
proof -
  have 1: "nfkd U s = s" using assms by (simp add: respectsAscii_def)
  have 2: "stripMarks s = s" using assms(2) by (auto simp: stripMarks_def filter_id_conv)
  have 3: "toLowerCase U s = map asciiLower s" using assms by (simp add: respectsAscii_def)
  show ?thesis by (simp add: normalizeFeature_def 1 2 3)
qed

lemma toUpperCase_ascii:
  assumes "respectsAscii U" and "c < 128"
  shows "toUpperCase U [c] = [asciiUpper c]"
  using assms by (simp add: respectsAscii_def)

text \<open>
  Claim C6. Given what the Unicode tables say on Basic Latin and the canonical decomposition
  of \<open>U+00E9\<close> into \<open>e\<close> and \<open>U+0301\<close>, \<open>normalizeFeature\<close> is idempotent on every string,
  and it maps \<open>Caf\<close>\<open>U+00E9\<close> and \<open>cafe\<close> to the same key.
\<close>

theorem normalizeFeature_idempotent:
  assumes "respectsAscii U" and "nfkd U (js ''Caf'' @ [233]) = js ''Cafe'' @ [769]"
  shows "(\<forall>x. normalizeFeature U (normalizeFeature U x) = normalizeFeature U x) \<and>
         normalizeFeature U (js ''Caf'' @ [233]) = normalizeFeature U (js ''cafe'')"
proof
  show "\<forall>x. normalizeFeature U (normalizeFeature U x) = normalizeFeature U x"
    using normalizeFeature_fixes[OF assms(1) normalForm_normalizeFeature] by blast
next
  have s: "stripMarks (js ''Cafe'' @ [769]) = js ''Cafe''" "stripMarks (js ''cafe'') = js ''cafe''"
    by (simp_all add: stripMarks_def js_def)
  have l: "toLowerCase U (js ''Cafe'') = js ''cafe''" "toLowerCase U (js ''cafe'') = js ''cafe''"
    using assms(1) ascii_literal unfolding respectsAscii_def
    by (auto simp: js_def asciiLower_def)
  have n: "nfkd U (js ''cafe'') = js ''cafe''"
    using assms(1) ascii_literal(2) unfolding respectsAscii_def by blast
  show "normalizeFeature U (js ''Caf'' @ [233]) = normalizeFeature U (js ''cafe'')"
    by (simp add: normalizeFeature_def assms(2) s l n)
qed

lemma latin_decompose_ascii: "c < 128 \<Longrightarrow> decompose c = [c]"
  by (simp add: decompose_def latin1Marks_def)

lemma latin_respectsAscii: "respectsAscii latin"
proof -
  have 1: "concat (map decompose s) = s" if "\<forall>c \<in> set s. c < 128" for s
    using that by (induction s) (simp_all add: latin_decompose_ascii)
  have 2: "map latinLower s = map asciiLower s" if "\<forall>c \<in> set s. c < 128" for s
    using that by (auto simp: latinLower_def asciiLower_def)
  have 3: "map latinUpper s = map asciiUpper s" if "\<forall>c \<in> set s. c < 128" for s
    using that by (auto simp: latinUpper_def asciiUpper_def)
  show ?thesis unfolding respectsAscii_def latin_def using 1 2 3 by simp
qed

lemma latin_cafe: "nfkd latin (js ''Caf'' @ [233]) = js ''Cafe'' @ [769]"
  by (simp add: latin_def js_def decompose_def latin1Marks_def)

theorem normalizeFeature_idempotent_witness:
  "normalizeFeature latin (normalizeFeature latin (js ''Caf'' @ [233])) = js ''cafe'' \<and>
   normalizeFeature latin (js ''Caf'' @ [233]) = normalizeFeature latin (js ''cafe'')"
proof -
  have e: "normalizeFeature latin (js ''cafe'') = js ''cafe''"
    by (simp add: normalizeFeature_def latin_def js_def decompose_def latin1Marks_def
          stripMarks_def latinLower_def replaceNonAlnum_def isAlnumPlus_def trim_def isSpace_def)
  from normalizeFeature_idempotent[OF latin_respectsAscii latin_cafe] e show ?thesis by simp
qed

section \<open>The registry on two spellings of one concept\<close>

lemma sso_normalized:
  assumes "respectsAscii U"
  shows "normalizeFeature U (js ''SSO'') = js ''sso''"
    and "normalizeFeature U (js ''Single Sign-On'') = js ''single sign on''"
  by (simp_all add: normalizeFeature_ascii[OF assms] js_def asciiLower_def replaceNonAlnum_def
        isAlnumPlus_def isSpace_def trim_def)

lemma sso_canonical:
  assumes "respectsAscii U"
  shows "canonicalFeatureName U (js ''SSO'') = js ''Sso''"
    and "canonicalFeatureName U (js ''Single Sign-On'') = js ''Single Sign On''"
  by (simp_all add: canonicalFeatureName_def sso_normalized[OF assms])
     (simp_all add: js_def capitalize_def toUpperCase_ascii[OF assms] asciiUpper_def)

lemma sso_trim: "map trim ssoNames = ssoNames"
  by (simp add: ssoNames_def trim_def js_def isSpace_def)

lemma sso_entries:
  assumes "respectsAscii U"
  shows "normalizedEntries U ssoNames =
     [\<lparr>e_original = js ''SSO'', e_normalized = js ''sso'', e_canonical = js ''Sso''\<rparr>,
      \<lparr>e_original = js ''Single Sign-On'', e_normalized = js ''single sign on'',
       e_canonical = js ''Single Sign On''\<rparr>]"
  unfolding normalizedEntries_def sso_trim
  by (simp add: ssoNames_def sso_normalized[OF assms] sso_canonical[OF assms]) (simp add: js_def)

lemma sso_literals:
  "js ''sso'' \<noteq> js ''single sign on''" "js ''single sign on'' \<noteq> js ''sso''"
  "js ''Sso'' \<noteq> js ''SSO''" "js ''Sso'' \<noteq> []"
  "js ''Single Sign On'' \<noteq> js ''Single Sign-On''" "js ''Single Sign On'' \<noteq> []"
  "js ''SSO'' \<noteq> []" "js ''Single Sign-On'' \<noteq> []"
  by (simp_all add: js_def)

lemma sso_returned:
  assumes "respectsAscii U"
      and "\<forall>d \<in> set catalog. fd_normalized d \<noteq> js ''sso'' \<and> fd_normalized d \<noteq> js ''single sign on''"
  shows "map (\<lambda>d. (fd_normalized d, fd_name d, fd_aliases d))
           (fst (ensureFeatureDefinitions U genId ssoNames origin category catalog))
         = [(js ''sso'', js ''Sso'', [js ''SSO'']),
            (js ''single sign on'', js ''Single Sign On'', [js ''Single Sign-On''])]"
proof -
  have ex: "filter (\<lambda>d. fd_normalized d = js ''sso'' \<or> fd_normalized d = js ''single sign on'') catalog = []"
    using assms(2) by (auto simp: filter_empty_conv)
  show ?thesis
    unfolding ensureFeatureDefinitions_def sso_entries[OF assms(1)] Let_def
    by (simp add: ex createMissing_def orElse_def sso_literals Let_def split: prod.splits)
qed

text \<open>
  Claim C2, as amended. For the names \<open>SSO\<close> and \<open>Single Sign-On\<close> and a catalog that holds
  neither key, \<open>ensureFeatureDefinitions\<close> returns two definitions, one for each normalized
  key (\<open>sso\<close> and \<open>single sign on\<close>): the aliases of the first hold \<open>SSO\<close>, those of the second
  hold \<open>Single Sign-On\<close>.
\<close>

theorem ensureFeatureDefinitions_sso:
  assumes "respectsAscii U"
      and "\<forall>d \<in> set catalog. fd_normalized d \<noteq> js ''sso'' \<and> fd_normalized d \<noteq> js ''single sign on''"
  shows "map (\<lambda>d. (fd_normalized d, fd_name d, fd_aliases d))
           (fst (ensureFeatureDefinitions U genId ssoNames origin category catalog))
         = [(js ''sso'', js ''Sso'', [js ''SSO'']),
            (js ''single sign on'', js ''Single Sign On'', [js ''Single Sign-On''])]"
  using assms by (rule sso_returned)

theorem ensureFeatureDefinitions_sso_witness:
  "map (\<lambda>d. (fd_normalized d, fd_name d, fd_aliases d))
           (fst (ensureFeatureDefinitions latin demoGenId ssoNames COMPETITOR None []))
         = [(js ''sso'', js ''Sso'', [js ''SSO'']),
            (js ''single sign on'', js ''Single Sign On'', [js ''Single Sign-On''])]"
  using ensureFeatureDefinitions_sso[of latin "[]" demoGenId COMPETITOR None] latin_respectsAscii
  by simp

text \<open>The call returns two definitions, not one.\<close>

theorem ensureFeatureDefinitions_sso_counterexample:
  "length (fst (ensureFeatureDefinitions latin demoGenId ssoNames COMPETITOR None [])) = 2"
proof -
  have "length (map (\<lambda>d. (fd_normalized d, fd_name d, fd_aliases d))
           (fst (ensureFeatureDefinitions latin demoGenId ssoNames COMPETITOR None []))) = 2"
    using sso_returned[of latin "[]" demoGenId COMPETITOR None] latin_respectsAscii by simp
  then show ?thesis by simp
qed

section \<open>The selection policy of discovery\<close>

lemma partitionResults_eq:
  "partitionResults U nu seen toks comps results =
     (filter (\<lambda>r. score U toks comps r > 0) (eligible nu seen results), eligible nu seen results)"
proof -
  have "foldl (\<lambda>(relevant, fallback) r.
              let url = nu (sr_url r)
              in if url = [] \<or> url \<in> set seen then (relevant, fallback)
                 else (if score U toks comps r > 0
                       then relevant @ [r] else relevant,
                       fallback @ [r])) (rel, fb) results
        = (rel @ filter (\<lambda>r. score U toks comps r > 0) (eligible nu seen results),
           fb @ eligible nu seen results)" for rel fb
    by (induction results arbitrary: rel fb) (auto simp: eligible_def Let_def)
  from this[of "[]" "[]"] show ?thesis by (simp add: partitionResults_def)
qed

text \<open>
  Claim C3, as amended. The selection is made among the results that the loop does not
  skip, those whose normalized URL is not empty and was not seen before in the run. If each
  of them scores 0, the selected results are the first three of them, and they are not
  empty unless there is none of them; if one of them scores more than 0, the selected
  results are exactly those of them that score more than 0.
\<close>

theorem selection_policy:
  "((\<forall>r \<in> set (eligible nu seen results). score U toks comps r = 0) \<longrightarrow>
      selectedResults U nu seen toks comps results = take 3 (eligible nu seen results) \<and>
      (eligible nu seen results \<noteq> [] \<longrightarrow> selectedResults U nu seen toks comps results \<noteq> [])) \<and>
   ((\<exists>r \<in> set (eligible nu seen results). score U toks comps r > 0) \<longrightarrow>
      selectedResults U nu seen toks comps results
        = filter (\<lambda>r. score U toks comps r > 0) (eligible nu seen results))"
proof (intro conjI impI)
  assume z: "\<forall>r \<in> set (eligible nu seen results). score U toks comps r = 0"
  then have "filter (\<lambda>r. score U toks comps r > 0) (eligible nu seen results) = []"
    by (simp add: filter_empty_conv)
  then show s: "selectedResults U nu seen toks comps results = take 3 (eligible nu seen results)"
    by (simp add: selectedResults_def partitionResults_eq)
  assume "eligible nu seen results \<noteq> []"
  with s show "selectedResults U nu seen toks comps results \<noteq> []" by simp
next
  assume "\<exists>r \<in> set (eligible nu seen results). score U toks comps r > 0"
  then have "filter (\<lambda>r. score U toks comps r > 0) (eligible nu seen results) \<noteq> []"
    by (simp add: filter_empty_conv)
  then show "selectedResults U nu seen toks comps results
        = filter (\<lambda>r. score U toks comps r > 0) (eligible nu seen results)"
    by (simp add: selectedResults_def partitionResults_eq)
qed

lemmas score_eval = score_def resultBody_def latin_def latinLower_def js_def demoResult_def

theorem selection_policy_witness:
  "selectedResults latin demoNormalizeUrl [] [js ''zebra''] [] demoResults = take 3 demoResults \<and>
   selectedResults latin demoNormalizeUrl [] [js ''zebra''] [] demoResults \<noteq> [] \<and>
   selectedResults latin demoNormalizeUrl [] [js ''alpha'', js ''zebra''] [js ''Delta''] demoResults
     = [demoResult ''Alpha'' ''https://a.example/'', demoResult ''Delta'' ''https://d.example/'']"
proof -
  have e: "eligible demoNormalizeUrl [] demoResults = demoResults"
    by (simp add: eligible_def demoNormalizeUrl_def demoResults_def demoResult_def js_def)
  have z: "map (score latin [js ''zebra''] []) demoResults = [0, 0, 0, 0]"
    by (simp add: demoResults_def score_eval)
  have p: "map (score latin [js ''alpha'', js ''zebra''] [js ''Delta'']) demoResults = [1, 0, 0, 2]"
    by (simp add: demoResults_def score_eval)
  have z': "\<forall>r \<in> set (eligible demoNormalizeUrl [] demoResults). score latin [js ''zebra''] [] r = 0"
    using z unfolding e by (simp add: demoResults_def)
  have p': "\<exists>r \<in> set (eligible demoNormalizeUrl [] demoResults).
              score latin [js ''alpha'', js ''zebra''] [js ''Delta''] r > 0"
    using p unfolding e by (simp add: demoResults_def)
  have f: "filter (\<lambda>r. score latin [js ''alpha'', js ''zebra''] [js ''Delta''] r > 0) demoResults
           = [demoResult ''Alpha'' ''https://a.example/'', demoResult ''Delta'' ''https://d.example/'']"
    using p by (simp add: demoResults_def)
  have n: "demoResults \<noteq> []" by (simp add: demoResults_def)
  from selection_policy[of demoNormalizeUrl "[]" demoResults latin "[js ''zebra'']" "[]"] z' e n
  have 1: "selectedResults latin demoNormalizeUrl [] [js ''zebra''] [] demoResults = take 3 demoResults \<and>
   selectedResults latin demoNormalizeUrl [] [js ''zebra''] [] demoResults \<noteq> []" by simp
  from selection_policy[of demoNormalizeUrl "[]" demoResults latin "[js ''alpha'', js ''zebra'']" "[js ''Delta'']"] p' e f
  have 2: "selectedResults latin demoNormalizeUrl [] [js ''alpha'', js ''zebra''] [js ''Delta''] demoResults
     = [demoResult ''Alpha'' ''https://a.example/'', demoResult ''Delta'' ''https://d.example/'']" by simp
  from 1 2 show ?thesis by blast
qed

text \<open>
  A result list of one result whose URL was seen before: the result scores 0, the raw list
  is not empty, and nothing is selected.
\<close>

theorem selection_seen_counterexample:
  "score latin [js ''zebra''] [] (demoResult ''Alpha'' ''https://a.example/'') = 0 \<and>
   selectedResults latin demoNormalizeUrl [js ''https://a.example/''] [js ''zebra''] []
     [demoResult ''Alpha'' ''https://a.example/''] = []"
  by (simp add: selectedResults_def partitionResults_def demoNormalizeUrl_def score_eval)

section \<open>Feature rows and their keys\<close>

lemma audit_normalized: "normalizeFeature latin (js ''Audit Logs'') = js ''audit logs''"
  by (simp add: normalizeFeature_ascii[OF latin_respectsAscii] js_def asciiLower_def replaceNonAlnum_def
        isAlnumPlus_def isSpace_def trim_def)

lemma audit_creates: "featureCreates auditCandidates = auditCandidates"
  by (simp add: featureCreates_def auditCandidates_def featureKey_def js_def)

lemma global_creates: "featureCreates globalCandidates = globalCandidates"
  by (simp add: featureCreates_def globalCandidates_def auditCandidates_def featureKey_def js_def)

lemma audit_rows:
  "map (\<lambda>r. (ft_runId r, ft_competitorId r, ft_normalized r, ft_sourceId r))
       (fst (featureCreatesWithDefs latin demoGenId auditCandidates []))
   = [(js ''r1'', Some (js ''c1''), js ''audit logs'', js ''s1''),
      (js ''r1'', Some (js ''c1''), js ''audit logs'', js ''s2'')]"
  unfolding featureCreatesWithDefs_def audit_creates Let_def
  by (simp add: split_def audit_normalized auditCandidates_def)

lemma global_rows:
  "map (\<lambda>r. (ft_runId r, ft_competitorId r, ft_normalized r, ft_sourceId r))
       (fst (featureCreatesWithDefs latin demoGenId globalCandidates []))
   = [(js ''r1'', None, js ''audit logs'', js ''s1''), (js ''r1'', None, js ''audit logs'', js ''s2'')]"
  unfolding featureCreatesWithDefs_def global_creates Let_def
  by (simp add: split_def audit_normalized globalCandidates_def auditCandidates_def)

lemma createFeatures_pair:
  "createFeatures [] [a, b] =
     (if conflicts a b
      then Inl (js ''Unique constraint failed on the fields: (`runId`,`competitorId`,`normalized`)'')
      else Inr [a, b])"
  by simp

lemma two_rows:
  assumes "map f xs = [a, b]"
  obtains x y where "xs = [x, y]" "f x = a" "f y = b"
  using assms by (cases xs; cases "tl xs"; cases "tl (tl xs)") auto

lemma audit_transaction:
  "fst (persistedFeatures latin demoGenId auditCandidates [] [])
   = Inl (js ''Unique constraint failed on the fields: (`runId`,`competitorId`,`normalized`)'')"
proof -
  obtain x y where xy: "fst (featureCreatesWithDefs latin demoGenId auditCandidates []) = [x, y]"
    and x: "(ft_runId x, ft_competitorId x, ft_normalized x, ft_sourceId x)
              = (js ''r1'', Some (js ''c1''), js ''audit logs'', js ''s1'')"
    and y: "(ft_runId y, ft_competitorId y, ft_normalized y, ft_sourceId y)
              = (js ''r1'', Some (js ''c1''), js ''audit logs'', js ''s2'')"
    using audit_rows by (rule two_rows)
  from x y have "conflicts x y" by (simp add: conflicts_def)
  then show ?thesis
    using xy by (simp add: persistedFeatures_def split_def createFeatures_pair del: createFeatures.simps)
qed

lemma pipeline_raised_error:
  assumes "hasRun runId d" and "findRun runId d = Some r" and "run_status r \<noteq> SKIPPED"
    and "fst (pipeline e runId d) = Some msg"
  shows "fst (orchestrateRun e runId d) = Some msg"
    and "map_option run_status (findRun runId (snd (orchestrateRun e runId d))) = Some ERROR"
proof -
  obtain d' where p: "pipeline e runId d = (Some msg, d')"
    using assms(4) by (cases "pipeline e runId d") auto
  have h: "hasRun runId d'" using hasRun_pipeline[OF assms(1), of e] p by simp
  have k: "findRun runId (appendLog runId l x) = findRun runId x" for l x
    by (simp add: appendLog_def findRun_def)
  have o: "orchestrateRun e runId d =
     (Some msg, appendLog runId (js ''FATAL ERROR: '' @ msg @ [10] @ stack e)
        (afterStatus (now e) runId ERROR (Some (js ''Error: '' @ msg)) None d'))"
    using assms(2,3) by (simp add: orchestrateRun_def p setStatus_found[OF h])
  show "fst (orchestrateRun e runId d) = Some msg" by (simp add: o)
  show "map_option run_status (findRun runId (snd (orchestrateRun e runId d))) = Some ERROR"
    by (simp add: o k status_afterStatus[OF h])
qed

lemma audit_run:
  "map_option run_status (findRun (js ''r1'') (snd (orchestrateRun auditEnv (js ''r1'') (demoDb NEW))))
   = Some ERROR"
proof -
  have r: "raises auditEnv Extraction
             = Some (js ''Unique constraint failed on the fields: (`runId`,`competitorId`,`normalized`)'')"
    "raises auditEnv Discovery = None" "raises auditEnv Fetching = None"
    by (simp_all add: auditEnv_def audit_transaction)
  have p: "fst (pipeline auditEnv (js ''r1'') (demoDb NEW))
             = Some (js ''Unique constraint failed on the fields: (`runId`,`competitorId`,`normalized`)'')"
    using demo_hasRun[of NEW] unfolding pipeline_def steps_def
    by (simp add: pipeline_steps r del: seqAll.simps(2))
  have st: "run_status (demoRun NEW) \<noteq> SKIPPED" by (simp add: demoRun_def)
  show ?thesis by (rule pipeline_raised_error(2)[OF demo_hasRun demo_findRun st p])
qed

text \<open>
  Claim C7 at a concrete candidate list. The two candidates have different keys
  (\<open>c1|audit log\<close> and \<open>c1|audit logs\<close>), so both are kept; both rows are prepared with the
  \<open>normalized\<close> recomputed from the name, which is the same for the two, so the second
  create is rejected by the unique index and the transaction fails: no row is stored, the
  first candidate is not persisted, and the run ends with status \<open>ERROR\<close>.
\<close>

theorem first_candidate_not_persisted:
  "featureCreates auditCandidates = auditCandidates
   \<and> map (\<lambda>r. (ft_runId r, ft_competitorId r, ft_normalized r, ft_sourceId r))
         (fst (featureCreatesWithDefs latin demoGenId auditCandidates []))
       = [(js ''r1'', Some (js ''c1''), js ''audit logs'', js ''s1''),
          (js ''r1'', Some (js ''c1''), js ''audit logs'', js ''s2'')]
   \<and> fst (persistedFeatures latin demoGenId auditCandidates [] [])
       = Inl (js ''Unique constraint failed on the fields: (`runId`,`competitorId`,`normalized`)'')
   \<and> map_option run_status
         (findRun (js ''r1'') (snd (orchestrateRun auditEnv (js ''r1'') (demoDb NEW)))) = Some ERROR"
  using audit_creates audit_rows audit_transaction audit_run by (simp only: simp_thms)

text \<open>
  The same two candidates for a page of no competitor are in no conflict for the index:
  both rows are stored, with the same \<open>normalized\<close> and no competitor.
\<close>

lemma global_rows_both_stored:
  "map_sum id (map (\<lambda>r. (ft_competitorId r, ft_normalized r, ft_sourceId r)))
     (fst (persistedFeatures latin demoGenId globalCandidates [] []))
   = Inr [(None, js ''audit logs'', js ''s1''), (None, js ''audit logs'', js ''s2'')]"
proof -
  obtain x y where xy: "fst (featureCreatesWithDefs latin demoGenId globalCandidates []) = [x, y]"
    and x: "(ft_runId x, ft_competitorId x, ft_normalized x, ft_sourceId x)
              = (js ''r1'', None, js ''audit logs'', js ''s1'')"
    and y: "(ft_runId y, ft_competitorId y, ft_normalized y, ft_sourceId y)
              = (js ''r1'', None, js ''audit logs'', js ''s2'')"
    using global_rows by (rule two_rows)
  from x y have "\<not> conflicts x y" by (simp add: conflicts_def)
  then show ?thesis
    using xy x y by (simp add: persistedFeatures_def split_def createFeatures_pair del: createFeatures.simps)
qed

section \<open>Canonical capabilities\<close>




















subsection \<open>Every match of a pattern takes at least one code unit\<close>

lemma minList_le: "x \<in> set xs \<Longrightarrow> minList xs \<le> x"
  by (induction xs rule: minList.induct) auto

lemma litMatch_len: "(p, r) \<in> set (litMatch s prev rest) \<Longrightarrow> length r + length s = length rest"
  by (induction s prev rest rule: litMatch.induct) (auto split: if_splits)

lemma repMatch_len: "(p, r) \<in> set (repMatch cls lo hi prev rest) \<Longrightarrow> length r + lo \<le> length rest"
proof (induction cls lo hi prev rest rule: repMatch.induct)
  case (1 cls lo hi prev)
  then show ?case by (auto split: if_splits)
next
  case (2 cls lo hi prev c cs)
  then show ?case by (fastforce split: if_splits)
qed

lemma matchRx_len:
  "(p', r', c') \<in> set (matchRx r (p, rest, c)) \<Longrightarrow> length r' + minLen r \<le> length rest"
proof (induction r arbitrary: p rest c p' r' c')
  case (Lit s)
  then show ?case using litMatch_len[of p' r' "js s" p rest] by (auto simp: js_def)
next
  case (Rep cls lo hi)
  then show ?case using repMatch_len[of p' r' cls lo hi p rest] by auto
next
  case (Alt rs)
  from Alt.prems obtain a where a: "a \<in> set rs" "(p', r', c') \<in> set (matchRx a (p, rest, c))"
    by auto
  from Alt.IH[OF a] have "length r' + minLen a \<le> length rest" .
  moreover have "minLen (Alt rs) \<le> minLen a" using a(1) by (simp add: minList_le)
  ultimately show ?case by linarith
next
  case (Seq rs)
  then show ?case
  proof (induction rs arbitrary: p rest c)
    case Nil
    then show ?case by simp
  next
    case (Cons a rs)
    from Cons.prems(2) obtain p1 r1 c1 where
      1: "(p1, r1, c1) \<in> set (matchRx a (p, rest, c))" and
      2: "(p', r', c') \<in> set (matchRx (Seq rs) (p1, r1, c1))"
      by auto
    have "length r1 + minLen a \<le> length rest" using Cons.prems(1)[OF _ 1] by simp
    moreover have "length r' + minLen (Seq rs) \<le> length r1"
      using Cons.IH[OF _ 2] Cons.prems(1) by simp
    ultimately show ?case by simp
  qed
next
  case (Grp n r)
  then show ?case by fastforce
next
  case WordB
  then show ?case by (auto simp: Let_def split: if_splits)
qed

lemma patterns_minLen:
  "\<forall>(c, ps) \<in> set CAT_PATTERNS. \<forall>re \<in> set ps. 0 < minLen re"
  by (simp add: CAT_PATTERNS_def wordAlt_def opt_def)

lemma patterns_consume:
  assumes "(category, ps) \<in> set CAT_PATTERNS" and "re \<in> set ps"
      and "(p', rest', caps') \<in> set (matchRx re (p, rest, caps))"
  shows "length rest' < length rest"
proof -
  have "0 < minLen re" using patterns_minLen assms(1,2) by blast
  with matchRx_len[OF assms(3)] show ?thesis by linarith
qed

subsection \<open>The hits for the mentions of two-factor authentication\<close>





















subsection \<open>The mention \<open>2FA\<close> as a whole word\<close>



























section \<open>Citations of the deterministic findings\<close>

lemma citations_common:
  assumes "f \<in> set (commonFeatureFindings U caps srcs)"
  shows "set (f_citations f) \<subseteq> set (map src_id (take 1 srcs)) \<and> length (f_citations f) \<le> 3"
proof -
  have p: "set (truthyStrings (map (\<lambda>_. pickAnySource srcs) xs)) \<subseteq> set (map src_id (take 1 srcs))" for xs :: "capability list"
    by (cases srcs) (auto simp: truthyStrings_def pickAnySource_def List.map_filter_def)
  from assms obtain inst :: "capability list" where
    "f_citations f = take 3 (truthyStrings (map (\<lambda>_. pickAnySource srcs) inst))"
    by (auto simp: commonFeatureFindings_def Let_def split: if_splits)
  with p[of inst] show ?thesis
    by (auto dest!: in_set_takeD)
qed

lemma citations_differentiator:
  assumes "f \<in> set (differentiatorFindings U caps srcs)"
  shows "set (f_citations f) \<subseteq> set (map src_id (take 1 srcs)) \<and> length (f_citations f) \<le> 1"
  using assms
  by (cases srcs) (auto simp: differentiatorFindings_def Let_def pickAnySource_def truthy_def split: if_splits)

text \<open>
  Claim C10. Every citation of a COMMON-FEATURE or DIFFERENTIATOR finding is the id of the
  first source of the list given to synthesis: the citation list has at most three
  entries and at most one distinct source.
\<close>

theorem deterministic_findings_cite_first_source:
  "\<forall>f \<in> set (commonFeatureFindings U caps srcs) \<union> set (differentiatorFindings U caps srcs).
     set (f_citations f) \<subseteq> set (map src_id (take 1 srcs)) \<and> length (f_citations f) \<le> 3 \<and>
     card (set (f_citations f)) \<le> 1"
proof
  fix f assume "f \<in> set (commonFeatureFindings U caps srcs) \<union> set (differentiatorFindings U caps srcs)"
  then have s: "set (f_citations f) \<subseteq> set (map src_id (take 1 srcs))" and l: "length (f_citations f) \<le> 3"
    using citations_common[of f U caps srcs] citations_differentiator[of f U caps srcs] by auto
  have "card (set (map src_id (take 1 srcs))) \<le> 1" by (cases srcs) auto
  with s have "card (set (f_citations f)) \<le> 1"
    using card_mono[OF _ s] by simp
  with s l show "set (f_citations f) \<subseteq> set (map src_id (take 1 srcs)) \<and> length (f_citations f) \<le> 3 \<and>
     card (set (f_citations f)) \<le> 1" by simp
qed

lemma demo_groups:
  "groupBy (capKey latin) demoCaps =
     [(js ''Security|saml'', [demoCap ''Security'' ''saml'', demoCap ''Security'' ''saml'']),
      (js ''API|rest'', [demoCap ''API'' ''rest'']),
      (js ''API|webhook'', [demoCap ''API'' ''webhook'']),
      (js ''Growth|referral'', [demoCap ''Growth'' ''referral''])]"
  by (simp add: groupBy_def demoCaps_def capKey_def demoCap_def latin_def latinLower_def js_def)

theorem deterministic_findings_cite_first_source_witness:
  "commonFeatureFindings latin demoCaps demoSources \<noteq> [] \<and>
   f_citations (hd (commonFeatureFindings latin demoCaps demoSources)) = [js ''s1'', js ''s1''] \<and>
   set (f_citations (hd (commonFeatureFindings latin demoCaps demoSources)))
     \<subseteq> set (map src_id (take 1 demoSources)) \<and>
   card (set (f_citations (hd (commonFeatureFindings latin demoCaps demoSources)))) \<le> 1"
proof -
  have p: "pickAnySource demoSources = Some (js ''s1'')"
    by (simp add: pickAnySource_def demoSources_def demoSource_def)
  have n: "js ''s1'' \<noteq> []" by (simp add: js_def)
  have c: "map f_citations (commonFeatureFindings latin demoCaps demoSources) =
     [[js ''s1'', js ''s1''], [js ''s1''], [js ''s1''], [js ''s1'']]"
    by (simp add: commonFeatureFindings_def commonGroups_def demo_groups Let_def p n
          truthyStrings_def List.map_filter_def)
       (simp add: demoCaps_def)
  then have ne: "commonFeatureFindings latin demoCaps demoSources \<noteq> []" by auto
  then have m: "hd (commonFeatureFindings latin demoCaps demoSources)
      \<in> set (commonFeatureFindings latin demoCaps demoSources)
        \<union> set (differentiatorFindings latin demoCaps demoSources)" by simp
  have h: "f_citations (hd (commonFeatureFindings latin demoCaps demoSources)) = [js ''s1'', js ''s1'']"
    using c ne by (cases "commonFeatureFindings latin demoCaps demoSources") auto
  from deterministic_findings_cite_first_source[of latin demoCaps demoSources] m
  have "set (f_citations (hd (commonFeatureFindings latin demoCaps demoSources)))
     \<subseteq> set (map src_id (take 1 demoSources)) \<and>
   card (set (f_citations (hd (commonFeatureFindings latin demoCaps demoSources)))) \<le> 1"
    by blast
  with ne h show ?thesis by blast
qed

section \<open>Feature opportunities\<close>

subsection \<open>The map of suggestions\<close>

lemma normalizeFeature_Nil: "respectsAscii U \<Longrightarrow> normalizeFeature U [] = []"
  by (simp add: normalizeFeature_ascii trim_def replaceNonAlnum_def)

lemma evidenceOf_eq:
  assumes "respectsAscii U"
  shows "evidenceOf U b m f =
     (if evidenceKey U f = [] then m
      else mapSet (evidenceKey U f)
             (touch b f (case map_of m (evidenceKey U f) of Some e \<Rightarrow> e | None \<Rightarrow> freshEntry U f)) m)"
proof (cases "(case fo_definition f of Some d \<Rightarrow> fd_normalized d | None \<Rightarrow> fo_normalized f) = []")
  case True
  then have "evidenceKey U f = []"
    using normalizeFeature_Nil[OF assms] by (simp add: evidenceKey_def)
  moreover have "evidenceOf U b m f = m"
    using True normalizeFeature_Nil[OF assms]
    by (simp add: evidenceOf_def recordFeatureEvidence_def truthy_def Let_def)
  ultimately show ?thesis by simp
next
  case False
  show ?thesis
  proof (cases "map_of m (evidenceKey U f)")
    case None
    with False show ?thesis
      by (cases b)
         (simp_all add: evidenceOf_def recordFeatureEvidence_def truthy_def Let_def touch_def
            freshEntry_def evidenceKey_def)
  next
    case (Some e)
    with False show ?thesis
      by (cases b)
         (simp_all add: evidenceOf_def recordFeatureEvidence_def truthy_def Let_def touch_def
            evidenceKey_def)
  qed
qed

lemma touch_fields:
  "sg_normalized (touch b f e) = sg_normalized e"
  "sg_currentCount (touch b f e) = sg_currentCount e + (if b = Current then 1 else 0)"
  "sg_historicalCount (touch b f e) = sg_historicalCount e + (if b = Historical then 1 else 0)"
  by (cases b; simp add: touch_def Let_def)+

lemma touch_citations:
  "set (sg_citations (touch b f e)) \<subseteq>
     set (sg_citations e) \<union> (if b = Current then set_option (fo_sourceId f) else {})"
  by (cases b; cases "fo_sourceId f") (auto simp: touch_def Let_def setAdd_def truthy_def)

lemma mapSet_keys_list: "set (map fst (mapSet k v m)) = insert k (set (map fst m))"
proof (induction m)
  case Nil
  then show ?case by simp
next
  case (Cons p m)
  obtain k' v' where p: "p = (k', v')" by (cases p)
  show ?case
  proof (cases "k = k'")
    case True
    then show ?thesis by (simp add: p)
  next
    case False
    with Cons show ?thesis by (simp add: p insert_commute)
  qed
qed

lemma mapSet_keys: "fst ` set (mapSet k v m) = insert k (fst ` set m)"
  using mapSet_keys_list[of k v m] by simp

lemma mapSet_distinct: "distinct (map fst m) \<Longrightarrow> distinct (map fst (mapSet k v m))"
proof (induction m)
  case Nil
  then show ?case by simp
next
  case (Cons p m)
  obtain k' v' where p: "p = (k', v')" by (cases p)
  from Cons have d: "distinct (map fst m)" and n: "k' \<notin> set (map fst m)" by (simp_all add: p)
  show ?case
  proof (cases "k = k'")
    case True
    with d n show ?thesis by (simp add: p)
  next
    case False
    have "distinct (map fst (mapSet k v m))" by (rule Cons.IH[OF d])
    moreover have "k' \<notin> set (map fst (mapSet k v m))"
      using n False unfolding mapSet_keys_list by simp
    ultimately show ?thesis using False by (simp add: p)
  qed
qed

lemma Collect_insert_if:
  "{p \<in> insert a A. P p} = (if P a then insert a {p \<in> A. P p} else {p \<in> A. P p})"
  by auto

lemma mapSet_set:
  "distinct (map fst m) \<Longrightarrow> set (mapSet k v m) = insert (k, v) {p \<in> set m. fst p \<noteq> k}"
proof (induction m)
  case Nil
  then show ?case by simp
next
  case (Cons p m)
  obtain k' v' where p: "p = (k', v')" by (cases p)
  from Cons.prems have d: "distinct (map fst m)" and n: "k' \<notin> fst ` set m" by (simp_all add: p)
  show ?case
  proof (cases "k = k'")
    case True
    have "\<And>q. q \<in> set m \<Longrightarrow> fst q \<noteq> k'" using n by blast
    then have "{q \<in> set m. fst q \<noteq> k'} = set m" by blast
    then have "{q \<in> insert (k', v') (set m). fst q \<noteq> k'} = set m"
      by (simp only: Collect_insert_if fst_conv simp_thms if_False)
    then have "{q \<in> set (p # m). fst q \<noteq> k} = set m"
      by (simp only: p True list.set)
    moreover have "set (mapSet k v (p # m)) = insert (k, v) (set m)"
      using True by (simp add: p)
    ultimately show ?thesis by (simp only:)
  next
    case False
    have "set (mapSet k v (p # m)) = insert (k', v') (set (mapSet k v m))"
      using False by (simp add: p)
    also have "\<dots> = insert (k', v') (insert (k, v) {p \<in> set m. fst p \<noteq> k})"
      by (simp only: Cons.IH[OF d])
    also have "\<dots> = insert (k, v) (insert (k', v') {p \<in> set m. fst p \<noteq> k})"
      by (rule insert_commute)
    also have "insert (k', v') {p \<in> set m. fst p \<noteq> k} = {q \<in> insert (k', v') (set m). fst q \<noteq> k}"
      using False by (simp only: Collect_insert_if fst_conv) simp
    also have "insert (k', v') (set m) = set (p # m)"
      by (simp only: p list.set)
    finally show ?thesis .
  qed
qed

lemma occurrences_snoc:
  "occurrences U k (rows @ [f]) = occurrences U k rows + (if evidenceKey U f = k then 1 else 0)"
  by (simp add: occurrences_def)

lemma citedBy_snoc:
  "citedBy U k (rows @ [f]) =
     citedBy U k rows \<union> (if evidenceKey U f = k then set_option (fo_sourceId f) else {})"
  by (auto simp: citedBy_def)

lemma sugInv_lookup:
  assumes "sugInv U cur hist m"
  shows "map_of m k = Some e \<Longrightarrow> (k, e) \<in> set m"
    and "map_of m k = None \<Longrightarrow> k \<notin> fst ` set m"
  by (auto dest: map_of_SomeD simp: map_of_eq_None_iff)

lemma fresh_fields:
  "sg_normalized (freshEntry U f) = evidenceKey U f" "sg_currentCount (freshEntry U f) = 0"
  "sg_historicalCount (freshEntry U f) = 0" "sg_citations (freshEntry U f) = []"
  by (simp_all add: freshEntry_def)

lemma sugInv_step:
  assumes U: "respectsAscii U" and inv: "sugInv U cur hist m"
  shows "sugInv U (if b = Current then cur @ [f] else cur) (if b = Historical then hist @ [f] else hist)
           (evidenceOf U b m f)"
proof -
  define k where "k = evidenceKey U f"
  define cur' where "cur' = (if b = Current then cur @ [f] else cur)"
  define hist' where "hist' = (if b = Historical then hist @ [f] else hist)"
  have bb: "b = Current \<or> b = Historical" by (cases b) auto
  have oc: "occurrences U k' cur' = occurrences U k' cur + (if b = Current \<and> k = k' then 1 else 0)" for k'
    by (simp add: cur'_def occurrences_snoc k_def)
  have oh: "occurrences U k' hist' = occurrences U k' hist + (if b = Historical \<and> k = k' then 1 else 0)" for k'
    by (simp add: hist'_def occurrences_snoc k_def)
  have cb: "citedBy U k' cur' = citedBy U k' cur \<union> (if b = Current \<and> k = k' then set_option (fo_sourceId f) else {})" for k'
    by (simp add: cur'_def citedBy_snoc k_def)
  from inv have d: "distinct (map fst m)"
    and el: "\<And>k' e. (k', e) \<in> set m \<Longrightarrow> k' \<noteq> [] \<and> sg_normalized e = k' \<and>
         sg_currentCount e = occurrences U k' cur \<and> sg_historicalCount e = occurrences U k' hist \<and>
         set (sg_citations e) \<subseteq> citedBy U k' cur"
    and ks: "\<And>k'. k' \<noteq> [] \<Longrightarrow> (k' \<in> fst ` set m) = (0 < occurrences U k' cur + occurrences U k' hist)"
    unfolding sugInv_def by auto
  show ?thesis
  proof (cases "k = []")
    case True
    then have same: "evidenceOf U b m f = m" by (simp add: evidenceOf_eq[OF U] k_def)
    have "sugInv U cur' hist' m"
      unfolding sugInv_def
    proof (intro conjI ballI allI impI)
      show "distinct (map fst m)" by (rule d)
    next
      fix p assume pm: "p \<in> set m"
      obtain k' e where pe: "p = (k', e)" by (cases p)
      with pm have p: "p = (k', e)" "(k', e) \<in> set m" by simp_all
      from el[OF p(2)] True have "k' \<noteq> k" by auto
      with el[OF p(2)] show "case p of (k, e) \<Rightarrow> k \<noteq> [] \<and> sg_normalized e = k \<and>
         sg_currentCount e = occurrences U k cur' \<and> sg_historicalCount e = occurrences U k hist' \<and>
         set (sg_citations e) \<subseteq> citedBy U k cur'"
        by (auto simp: p(1) oc oh cb)
    next
      fix k' :: jstring assume "k' \<noteq> []"
      with True have "k \<noteq> k'" by auto
      with ks[OF \<open>k' \<noteq> []\<close>]
      show "(k' \<in> fst ` set m) = (0 < occurrences U k' cur' + occurrences U k' hist')"
        by (simp add: oc oh)
    qed
    then show ?thesis unfolding same cur'_def hist'_def .
  next
    case False
    define e0 where "e0 = (case map_of m k of Some e \<Rightarrow> e | None \<Rightarrow> freshEntry U f)"
    define e2 where "e2 = touch b f e0"
    have new: "evidenceOf U b m f = mapSet k e2 m"
      using False by (simp add: evidenceOf_eq[OF U] k_def e2_def e0_def)
    have e0: "sg_normalized e0 = k \<and> sg_currentCount e0 = occurrences U k cur \<and>
              sg_historicalCount e0 = occurrences U k hist \<and> set (sg_citations e0) \<subseteq> citedBy U k cur"
    proof (cases "map_of m k")
      case None
      then have "k \<notin> fst ` set m" by (simp add: map_of_eq_None_iff)
      with ks[OF False] have "occurrences U k cur = 0 \<and> occurrences U k hist = 0" by simp
      with None show ?thesis by (simp add: e0_def fresh_fields k_def)
    next
      case (Some e)
      then have "(k, e) \<in> set m" by (rule map_of_SomeD)
      from el[OF this] Some show ?thesis by (simp add: e0_def)
    qed
    have e2: "sg_normalized e2 = k \<and> sg_currentCount e2 = occurrences U k cur' \<and>
              sg_historicalCount e2 = occurrences U k hist' \<and> set (sg_citations e2) \<subseteq> citedBy U k cur'"
      using e0 touch_citations[of b f e0] bb
      by (auto simp: e2_def touch_fields oc oh cb)
    have "sugInv U cur' hist' (mapSet k e2 m)"
      unfolding sugInv_def
    proof (intro conjI ballI allI impI)
      show "distinct (map fst (mapSet k e2 m))" by (rule mapSet_distinct[OF d])
    next
      fix p assume "p \<in> set (mapSet k e2 m)"
      then have "p = (k, e2) \<or> (p \<in> set m \<and> fst p \<noteq> k)" by (simp add: mapSet_set[OF d])
      then show "case p of (k, e) \<Rightarrow> k \<noteq> [] \<and> sg_normalized e = k \<and>
         sg_currentCount e = occurrences U k cur' \<and> sg_historicalCount e = occurrences U k hist' \<and>
         set (sg_citations e) \<subseteq> citedBy U k cur'"
      proof
        assume "p = (k, e2)"
        with e2 False show ?thesis by simp
      next
        assume a: "p \<in> set m \<and> fst p \<noteq> k"
        obtain k' e where pe: "p = (k', e)" by (cases p)
        with a have p: "p = (k', e)" "(k', e) \<in> set m" "k' \<noteq> k" by simp_all
        from el[OF p(2)] p(3) show ?thesis by (auto simp: p(1) oc oh cb)
      qed
    next
      fix k' :: jstring assume n: "k' \<noteq> []"
      show "(k' \<in> fst ` set (mapSet k e2 m)) = (0 < occurrences U k' cur' + occurrences U k' hist')"
        using ks[OF n] bb by (auto simp: mapSet_keys oc oh)
    qed
    then show ?thesis unfolding new cur'_def hist'_def .
  qed
qed

lemma sugInv_fold_current:
  assumes "respectsAscii U" and "sugInv U cur hist m"
  shows "sugInv U (cur @ rows) hist (foldl (evidenceOf U Current) m rows)"
  using assms(2)
proof (induction rows arbitrary: cur m)
  case Nil
  then show ?case by simp
next
  case (Cons f rows)
  from sugInv_step[OF assms(1) Cons.prems, of Current f]
  have "sugInv U (cur @ [f]) hist (evidenceOf U Current m f)" by simp
  from Cons.IH[OF this] show ?case by simp
qed

lemma sugInv_fold_historical:
  assumes "respectsAscii U" and "sugInv U cur hist m"
  shows "sugInv U cur (hist @ rows) (foldl (evidenceOf U Historical) m rows)"
  using assms(2)
proof (induction rows arbitrary: hist m)
  case Nil
  then show ?case by simp
next
  case (Cons f rows)
  from sugInv_step[OF assms(1) Cons.prems, of Historical f]
  have "sugInv U cur (hist @ [f]) (evidenceOf U Historical m f)" by simp
  from Cons.IH[OF this] show ?case by simp
qed

lemma sugInv_map:
  assumes "respectsAscii U"
  shows "sugInv U cur hist (featureSuggestionMap U cur hist)"
proof -
  have 0: "sugInv U [] [] []" by (simp add: sugInv_def occurrences_def)
  from sugInv_fold_current[OF assms 0, of cur] have "sugInv U cur [] (foldl (evidenceOf U Current) [] cur)"
    by simp
  from sugInv_fold_historical[OF assms this, of hist] show ?thesis
    by (simp add: featureSuggestionMap_def)
qed

subsection \<open>The suggestions and their findings\<close>

lemma sorted_take_drop:
  assumes "sorted (map h xs)" and "a \<in> set (take n xs)" and "b \<in> set (drop n xs)"
  shows "h a \<le> h b"
proof -
  have "map h xs = map h (take n xs) @ map h (drop n xs)"
    by (simp flip: map_append)
  with assms(1) have "sorted (map h (take n xs) @ map h (drop n xs))" by simp
  with assms(2,3) show ?thesis by (auto simp: sorted_append)
qed

lemma historical_bound: "length (historicalFeatures runId industry table) \<le> 300"
  by (simp add: historicalFeatures_def)

lemma historical_members:
  assumes "f \<in> set (historicalFeatures runId industry table)"
  shows "f \<in> set table \<and> historicalWhere runId industry f"
proof -
  from assms have "f \<in> set (sort_key (\<lambda>f. - fo_createdAt f) (filter (historicalWhere runId industry) table))"
    unfolding historicalFeatures_def by (rule in_set_takeD)
  then show ?thesis by simp
qed

lemma historical_recent:
  assumes "f \<in> set (historicalFeatures runId industry table)"
    and "g \<in> set (olderRows runId industry table)"
  shows "fo_createdAt g \<le> fo_createdAt f"
proof -
  let ?xs = "sort_key (\<lambda>f. - fo_createdAt f) (filter (historicalWhere runId industry) table)"
  have "sorted (map (\<lambda>f. - fo_createdAt f) ?xs)" by (rule sorted_sort_key)
  from sorted_take_drop[OF this, of f 300 g] assms show ?thesis
    by (simp add: historicalFeatures_def olderRows_def)
qed

lemma historical_left_out:
  assumes "f \<in> set (historicalFeatures runId industry table)"
    and "g \<in> set table" and "historicalWhere runId industry g"
    and "g \<notin> set (historicalFeatures runId industry table)"
  shows "fo_createdAt g \<le> fo_createdAt f"
proof -
  let ?xs = "sort_key (\<lambda>f. - fo_createdAt f) (filter (historicalWhere runId industry) table)"
  from assms(2,3) have "g \<in> set ?xs" by simp
  then have "g \<in> set (take 300 ?xs @ drop 300 ?xs)" by (simp only: append_take_drop_id)
  then have "g \<in> set (take 300 ?xs) \<or> g \<in> set (drop 300 ?xs)" by (simp only: set_append Un_iff)
  with assms(4) have "g \<in> set (olderRows runId industry table)"
    unfolding historicalFeatures_def olderRows_def by blast
  with assms(1) show ?thesis by (rule historical_recent)
qed

lemma insight_None:
  "opportunityInsight s = None \<longleftrightarrow> sg_currentCount s = 0 \<and> sg_historicalCount s = 0"
  by (simp add: opportunityInsight_def Let_def)

lemma insight_the:
  assumes "opportunityInsight s \<noteq> None"
  shows "f_kind (the (opportunityInsight s)) = INSIGHT"
    "f_confidence (the (opportunityInsight s)) = (if 0 < sg_currentCount s then 0.7 else 0.55)"
    "f_citations (the (opportunityInsight s)) = take 3 (sg_citations s)"
proof -
  from assms have n: "\<not> (sg_currentCount s = 0 \<and> sg_historicalCount s = 0)"
    by (simp add: insight_None)
  then show "f_kind (the (opportunityInsight s)) = INSIGHT"
    by (auto simp: opportunityInsight_def Let_def)
  from n show "f_confidence (the (opportunityInsight s)) = (if 0 < sg_currentCount s then 0.7 else 0.55)"
    by (auto simp: opportunityInsight_def Let_def)
  from n show "f_citations (the (opportunityInsight s)) = take 3 (sg_citations s)"
    by (auto simp: opportunityInsight_def Let_def)
qed

lemma insight_Some:
  assumes "opportunityInsight s = Some f"
  shows "f_kind f = INSIGHT" "f_confidence f = (if 0 < sg_currentCount s then 0.7 else 0.55)"
    "f_citations f = take 3 (sg_citations s)"
  using insight_the[of s] assms by simp_all

lemma map_filter_total:
  "(\<And>x. x \<in> set xs \<Longrightarrow> g x \<noteq> None) \<Longrightarrow> map Some (List.map_filter g xs) = map g xs"
proof (induction xs)
  case Nil
  then show ?case by (simp add: map_filter_simps)
next
  case (Cons x xs)
  from Cons.prems[of x] obtain y where y: "g x = Some y" by auto
  from Cons show ?case by (simp add: map_filter_simps y)
qed

lemma distinct_map_sort_key: "distinct (map h (sort_key g xs)) = distinct (map h xs)"
  by (simp add: distinct_map)

lemma sugInv_D:
  assumes "sugInv U cur hist m"
  shows "distinct (map fst m)"
    and "\<And>k e. (k, e) \<in> set m \<Longrightarrow> k \<noteq> [] \<and> sg_normalized e = k \<and>
         sg_currentCount e = occurrences U k cur \<and> sg_historicalCount e = occurrences U k hist \<and>
         set (sg_citations e) \<subseteq> citedBy U k cur"
    and "\<And>k. k \<noteq> [] \<Longrightarrow> (k \<in> fst ` set m) = (0 < occurrences U k cur + occurrences U k hist)"
  using assms unfolding sugInv_def by auto

lemma sugInv_normalized:
  assumes "sugInv U cur hist m"
  shows "map sg_normalized (map snd m) = map fst m"
proof -
  have "sg_normalized (snd p) = fst p" if "p \<in> set m" for p
    using sugInv_D(2)[OF assms, of "fst p" "snd p"] that by simp
  then show ?thesis by (induction m) auto
qed

lemma sugInv_entry:
  assumes "sugInv U cur hist m" and "e \<in> set (map snd m)"
  shows "sg_normalized e \<noteq> []" "sg_currentCount e = occurrences U (sg_normalized e) cur"
    "sg_historicalCount e = occurrences U (sg_normalized e) hist"
    "set (sg_citations e) \<subseteq> citedBy U (sg_normalized e) cur"
    "0 < occurrences U (sg_normalized e) cur + occurrences U (sg_normalized e) hist"
proof -
  from assms(2) obtain k where k: "(k, e) \<in> set m" by auto
  note f = sugInv_D(2)[OF assms(1) k]
  from k have "k \<in> fst ` set m" by (rule rev_image_eqI) simp
  with sugInv_D(3)[OF assms(1), of k] f
  have p: "0 < occurrences U k cur + occurrences U k hist" by simp
  from f show "sg_normalized e \<noteq> []" "sg_currentCount e = occurrences U (sg_normalized e) cur"
    "sg_historicalCount e = occurrences U (sg_normalized e) hist"
    "set (sg_citations e) \<subseteq> citedBy U (sg_normalized e) cur" by simp_all
  from f p show "0 < occurrences U (sg_normalized e) cur + occurrences U (sg_normalized e) hist" by simp
qed

lemma sugInv_complete:
  assumes "sugInv U cur hist m" and "k \<noteq> []" and "0 < occurrences U k cur + occurrences U k hist"
  shows "\<exists>e \<in> set (map snd m). sg_normalized e = k"
proof -
  from sugInv_D(3)[OF assms(1,2)] assms(3) have "k \<in> fst ` set m" by simp
  then obtain e where e: "(k, e) \<in> set m" by auto
  from sugInv_D(2)[OF assms(1) e] have "sg_normalized e = k" by simp
  moreover from e have "e \<in> set (map snd m)" by force
  ultimately show ?thesis by blast
qed

lemma suggestions_subset:
  "set (featureSuggestions U declared cur hist) \<subseteq>
     {e \<in> set (map snd (featureSuggestionMap U cur hist)). sg_normalized e \<notin> set declared}"
proof
  fix s assume "s \<in> set (featureSuggestions U declared cur hist)"
  then have "s \<in> set (sort_key (\<lambda>e. - int (sg_currentCount e + sg_historicalCount e))
               (filter (\<lambda>e. sg_normalized e \<notin> set declared)
                  (map snd (featureSuggestionMap U cur hist))))"
    unfolding featureSuggestions_def by (rule in_set_takeD)
  then show "s \<in> {e \<in> set (map snd (featureSuggestionMap U cur hist)). sg_normalized e \<notin> set declared}"
    by simp
qed

lemma suggestions_length: "length (featureSuggestions U declared cur hist) \<le> 5"
  by (simp add: featureSuggestions_def)

lemma suggestions_sorted:
  "sorted (map (\<lambda>e. - int (sg_currentCount e + sg_historicalCount e))
     (featureSuggestions U declared cur hist))"
  unfolding featureSuggestions_def take_map[symmetric]
  by (rule sorted_wrt_take) (rule sorted_sort_key)

lemma suggestions_distinct:
  assumes "respectsAscii U"
  shows "distinct (map sg_normalized (featureSuggestions U declared cur hist))"
proof -
  let ?m = "featureSuggestionMap U cur hist"
  have inv: "sugInv U cur hist ?m" by (rule sugInv_map[OF assms])
  then have "distinct (map fst ?m)" by (rule sugInv_D(1))
  then have "distinct (map sg_normalized (map snd ?m))" by (simp only: sugInv_normalized[OF inv])
  then have "distinct (map sg_normalized (filter (\<lambda>e. sg_normalized e \<notin> set declared) (map snd ?m)))"
    by (rule distinct_map_filter)
  then have "distinct (map sg_normalized (sort_key (\<lambda>e. - int (sg_currentCount e + sg_historicalCount e))
      (filter (\<lambda>e. sg_normalized e \<notin> set declared) (map snd ?m))))"
    by (simp only: distinct_map_sort_key)
  then show ?thesis
    unfolding featureSuggestions_def take_map[symmetric] by (rule distinct_take)
qed

lemma suggestions_dominate:
  assumes U: "respectsAscii U" and k: "k \<noteq> []" "k \<notin> set declared"
    "0 < occurrences U k cur + occurrences U k hist"
    and out: "k \<notin> sg_normalized ` set (featureSuggestions U declared cur hist)"
    and s: "s \<in> set (featureSuggestions U declared cur hist)"
  shows "length (featureSuggestions U declared cur hist) = 5
     \<and> occurrences U k cur + occurrences U k hist \<le> sg_currentCount s + sg_historicalCount s"
proof -
  let ?m = "featureSuggestionMap U cur hist"
  let ?key = "\<lambda>e. - int (sg_currentCount e + sg_historicalCount e)"
  let ?xs = "sort_key ?key (filter (\<lambda>e. sg_normalized e \<notin> set declared) (map snd ?m))"
  have inv: "sugInv U cur hist ?m" by (rule sugInv_map[OF U])
  from sugInv_complete[OF inv k(1) k(3)] obtain e where e: "e \<in> set (map snd ?m)" "sg_normalized e = k"
    by blast
  with k(2) have "e \<in> set ?xs" by simp
  then have "e \<in> set (take 5 ?xs @ drop 5 ?xs)" by (simp only: append_take_drop_id)
  then have "e \<in> set (take 5 ?xs) \<or> e \<in> set (drop 5 ?xs)" by (simp only: set_append Un_iff)
  moreover from out e(2) have "e \<notin> set (take 5 ?xs)" unfolding featureSuggestions_def by blast
  ultimately have d: "e \<in> set (drop 5 ?xs)" by blast
  then have "drop 5 ?xs \<noteq> []" by auto
  then have len: "length (take 5 ?xs) = 5" by simp
  have "sorted (map ?key ?xs)" by (rule sorted_sort_key)
  from sorted_take_drop[OF this, of s 5 e] s d have "?key s \<le> ?key e"
    unfolding featureSuggestions_def by simp
  then have "sg_currentCount e + sg_historicalCount e \<le> sg_currentCount s + sg_historicalCount s"
    by simp
  with sugInv_entry(2,3)[OF inv e(1)] e(2) len show ?thesis
    unfolding featureSuggestions_def by simp
qed

lemma suggestion_facts:
  assumes U: "respectsAscii U" and s: "s \<in> set (featureSuggestions U declared cur hist)"
  shows "sg_normalized s \<noteq> []" "sg_normalized s \<notin> set declared"
    "sg_currentCount s = occurrences U (sg_normalized s) cur"
    "sg_historicalCount s = occurrences U (sg_normalized s) hist"
    "0 < occurrences U (sg_normalized s) cur + occurrences U (sg_normalized s) hist"
    "set (sg_citations s) \<subseteq> citedBy U (sg_normalized s) cur"
proof -
  let ?m = "featureSuggestionMap U cur hist"
  have inv: "sugInv U cur hist ?m" by (rule sugInv_map[OF U])
  from s suggestions_subset[of U declared cur hist]
  have e: "s \<in> set (map snd ?m)" and n: "sg_normalized s \<notin> set declared" by auto
  from n show "sg_normalized s \<notin> set declared" .
  from sugInv_entry[OF inv e] show "sg_normalized s \<noteq> []"
    "sg_currentCount s = occurrences U (sg_normalized s) cur"
    "sg_historicalCount s = occurrences U (sg_normalized s) hist"
    "0 < occurrences U (sg_normalized s) cur + occurrences U (sg_normalized s) hist"
    "set (sg_citations s) \<subseteq> citedBy U (sg_normalized s) cur" by simp_all
qed

lemma findings_of_suggestions:
  assumes U: "respectsAscii U"
  shows "map Some (opportunityFindings U defs runId industry table)
     = map opportunityInsight (opportunitySuggestions U defs runId industry table)"
  unfolding opportunityFindings_def opportunitySuggestions_def
proof (rule map_filter_total)
  fix s assume s: "s \<in> set (featureSuggestions U (declaredFeatureSet U defs) (currentFeatures runId table)
          (historicalFeatures runId industry table))"
  from suggestion_facts(3,4,5)[OF U s] show "opportunityInsight s \<noteq> None"
    by (simp add: insight_None)
qed

lemma suggestions_nonempty:
  assumes U: "respectsAscii U" and k: "k \<noteq> []" "k \<notin> set declared"
    "0 < occurrences U k cur + occurrences U k hist"
  shows "featureSuggestions U declared cur hist \<noteq> []"
proof -
  let ?m = "featureSuggestionMap U cur hist"
  have inv: "sugInv U cur hist ?m" by (rule sugInv_map[OF U])
  from sugInv_complete[OF inv k(1) k(3)] obtain e where e: "e \<in> set (map snd ?m)" "sg_normalized e = k"
    by blast
  with k(2) have "e \<in> set (filter (\<lambda>e. sg_normalized e \<notin> set declared) (map snd ?m))" by simp
  then have "0 < length (filter (\<lambda>e. sg_normalized e \<notin> set declared) (map snd ?m))"
    by (rule length_pos_if_in_set)
  then have "0 < length (sort_key (\<lambda>e. - int (sg_currentCount e + sg_historicalCount e))
               (filter (\<lambda>e. sg_normalized e \<notin> set declared) (map snd ?m)))"
    by (simp only: length_sort)
  then have "0 < length (featureSuggestions U declared cur hist)"
    unfolding featureSuggestions_def by simp
  then show ?thesis by auto
qed

lemma suggestions_ranked:
  "sorted_wrt (\<lambda>a b. sg_currentCount b + sg_historicalCount b \<le> sg_currentCount a + sg_historicalCount a)
     (featureSuggestions U declared cur hist)"
proof -
  have "sorted_wrt (\<lambda>a b. - int (sg_currentCount a + sg_historicalCount a)
                          \<le> - int (sg_currentCount b + sg_historicalCount b))
     (featureSuggestions U declared cur hist)"
    using suggestions_sorted[of U declared cur hist] by (simp only: sorted_map)
  then show ?thesis by (rule sorted_wrt_mono_rel[rotated]) simp
qed

lemma insight_of_suggestion:
  assumes U: "respectsAscii U" and s: "s \<in> set (featureSuggestions U declared cur hist)"
  shows "f_kind (the (opportunityInsight s)) = INSIGHT"
    and "f_confidence (the (opportunityInsight s))
           = (if 0 < occurrences U (sg_normalized s) cur then 0.7 else 0.55)"
    and "length (f_citations (the (opportunityInsight s))) \<le> 3"
    and "\<forall>c \<in> set (f_citations (the (opportunityInsight s))).
           \<exists>r \<in> set cur. evidenceKey U r = sg_normalized s \<and> fo_sourceId r = Some c"
proof -
  note f = suggestion_facts[OF U s]
  from f(3,4,5) have n: "opportunityInsight s \<noteq> None" by (simp add: insight_None)
  show "f_kind (the (opportunityInsight s)) = INSIGHT" by (rule insight_the(1)[OF n])
  show "f_confidence (the (opportunityInsight s))
           = (if 0 < occurrences U (sg_normalized s) cur then 0.7 else 0.55)"
    by (simp only: insight_the(2)[OF n] f(3))
  show "length (f_citations (the (opportunityInsight s))) \<le> 3"
    by (simp add: insight_the(3)[OF n])
  show "\<forall>c \<in> set (f_citations (the (opportunityInsight s))).
           \<exists>r \<in> set cur. evidenceKey U r = sg_normalized s \<and> fo_sourceId r = Some c"
  proof
    fix c assume "c \<in> set (f_citations (the (opportunityInsight s)))"
    then have "c \<in> set (take 3 (sg_citations s))" by (simp only: insight_the(3)[OF n])
    then have "c \<in> set (sg_citations s)" by (rule in_set_takeD)
    with f(6) have "c \<in> citedBy U (sg_normalized s) cur" by blast
    then show "\<exists>r \<in> set cur. evidenceKey U r = sg_normalized s \<and> fo_sourceId r = Some c"
      by (simp add: citedBy_def)
  qed
qed

text \<open>
  Claim C4, as amended. The earlier rows read are rows of the \<open>Feature\<close> table, each of
  another run, with a definition, and of a project of the same industry when the project of
  the run has one: all of them when they are at most 300, and 300 of them otherwise, and no
  such row left out is more recent than a row read. At most five
  findings are emitted, one for each suggestion and in their order. The suggestions have
  different keys and are ranked by the number of rows seen in the run plus the number seen
  among the earlier rows read; each stands for a key that is not declared and is seen at
  least once, its finding is an \<open>INSIGHT\<close> with confidence 0.7 when the key is seen in the
  run and 0.55 otherwise, citing at most three sources, each the source of a row of the run
  counted under that key. A key that is not declared, is seen, and has no suggestion is
  left out only because five suggestions with at least as many rows were found.
\<close>

theorem opportunity_insights:
  assumes "respectsAscii U"
  shows "length (historicalFeatures runId industry table)
           = min 300 (length (filter (historicalWhere runId industry) table))
   \<and> (\<forall>f \<in> set (historicalFeatures runId industry table).
         f \<in> set table \<and> historicalWhere runId industry f
         \<and> (\<forall>g \<in> set table. historicalWhere runId industry g \<longrightarrow>
                g \<notin> set (historicalFeatures runId industry table) \<longrightarrow>
                fo_createdAt g \<le> fo_createdAt f))
   \<and> length (opportunityFindings U defs runId industry table) \<le> 5
   \<and> map Some (opportunityFindings U defs runId industry table)
       = map opportunityInsight (opportunitySuggestions U defs runId industry table)
   \<and> distinct (map sg_normalized (opportunitySuggestions U defs runId industry table))
   \<and> sorted_wrt (\<lambda>a b. sg_currentCount b + sg_historicalCount b
                          \<le> sg_currentCount a + sg_historicalCount a)
        (opportunitySuggestions U defs runId industry table)
   \<and> (\<forall>s \<in> set (opportunitySuggestions U defs runId industry table).
         candidate U defs runId industry table (sg_normalized s)
         \<and> sg_currentCount s = occurrences U (sg_normalized s) (currentFeatures runId table)
         \<and> sg_historicalCount s
             = occurrences U (sg_normalized s) (historicalFeatures runId industry table)
         \<and> f_kind (the (opportunityInsight s)) = INSIGHT
         \<and> f_confidence (the (opportunityInsight s))
             = (if 0 < occurrences U (sg_normalized s) (currentFeatures runId table)
                then 0.7 else 0.55)
         \<and> length (f_citations (the (opportunityInsight s))) \<le> 3
         \<and> (\<forall>c \<in> set (f_citations (the (opportunityInsight s))).
               \<exists>r \<in> set (currentFeatures runId table).
                 evidenceKey U r = sg_normalized s \<and> fo_sourceId r = Some c))
   \<and> (\<forall>k. candidate U defs runId industry table k \<longrightarrow>
            k \<notin> sg_normalized ` set (opportunitySuggestions U defs runId industry table) \<longrightarrow>
            length (opportunitySuggestions U defs runId industry table) = 5
            \<and> (\<forall>s \<in> set (opportunitySuggestions U defs runId industry table).
                  mentions U runId industry table k \<le> sg_currentCount s + sg_historicalCount s))"
proof -
  let ?cur = "currentFeatures runId table"
  let ?hist = "historicalFeatures runId industry table"
  let ?decl = "declaredFeatureSet U defs"
  let ?sugs = "opportunitySuggestions U defs runId industry table"
  have sugs: "?sugs = featureSuggestions U ?decl ?cur ?hist" by (simp add: opportunitySuggestions_def)
  have 1: "length ?hist = min 300 (length (filter (historicalWhere runId industry) table))"
    by (simp add: historicalFeatures_def)
  have 2: "\<forall>f \<in> set ?hist. f \<in> set table \<and> historicalWhere runId industry f
         \<and> (\<forall>g \<in> set table. historicalWhere runId industry g \<longrightarrow> g \<notin> set ?hist \<longrightarrow>
                fo_createdAt g \<le> fo_createdAt f)"
    using historical_members historical_left_out by blast
  have 4: "map Some (opportunityFindings U defs runId industry table) = map opportunityInsight ?sugs"
    by (rule findings_of_suggestions[OF assms])
  have "length (map Some (opportunityFindings U defs runId industry table)) \<le> 5"
    unfolding 4 sugs using suggestions_length by simp
  then have 3: "length (opportunityFindings U defs runId industry table) \<le> 5" by simp
  have 5: "distinct (map sg_normalized ?sugs)"
    unfolding sugs by (rule suggestions_distinct[OF assms])
  have 6: "sorted_wrt (\<lambda>a b. sg_currentCount b + sg_historicalCount b
                          \<le> sg_currentCount a + sg_historicalCount a) ?sugs"
    unfolding sugs by (rule suggestions_ranked)
  have 7: "\<forall>s \<in> set ?sugs.
         candidate U defs runId industry table (sg_normalized s)
         \<and> sg_currentCount s = occurrences U (sg_normalized s) ?cur
         \<and> sg_historicalCount s = occurrences U (sg_normalized s) ?hist
         \<and> f_kind (the (opportunityInsight s)) = INSIGHT
         \<and> f_confidence (the (opportunityInsight s))
             = (if 0 < occurrences U (sg_normalized s) ?cur then 0.7 else 0.55)
         \<and> length (f_citations (the (opportunityInsight s))) \<le> 3
         \<and> (\<forall>c \<in> set (f_citations (the (opportunityInsight s))).
               \<exists>r \<in> set ?cur. evidenceKey U r = sg_normalized s \<and> fo_sourceId r = Some c)"
  proof
    fix s assume "s \<in> set ?sugs"
    then have s: "s \<in> set (featureSuggestions U ?decl ?cur ?hist)" unfolding sugs .
    note f = suggestion_facts[OF assms s]
    note i = insight_of_suggestion[OF assms s]
    from f(1,2,5) have "candidate U defs runId industry table (sg_normalized s)"
      by (simp add: candidate_def mentions_def)
    with f(3,4) i show "candidate U defs runId industry table (sg_normalized s)
         \<and> sg_currentCount s = occurrences U (sg_normalized s) ?cur
         \<and> sg_historicalCount s = occurrences U (sg_normalized s) ?hist
         \<and> f_kind (the (opportunityInsight s)) = INSIGHT
         \<and> f_confidence (the (opportunityInsight s))
             = (if 0 < occurrences U (sg_normalized s) ?cur then 0.7 else 0.55)
         \<and> length (f_citations (the (opportunityInsight s))) \<le> 3
         \<and> (\<forall>c \<in> set (f_citations (the (opportunityInsight s))).
               \<exists>r \<in> set ?cur. evidenceKey U r = sg_normalized s \<and> fo_sourceId r = Some c)"
      by (intro conjI)
  qed
  have 8: "\<forall>k. candidate U defs runId industry table k \<longrightarrow>
            k \<notin> sg_normalized ` set ?sugs \<longrightarrow>
            length ?sugs = 5
            \<and> (\<forall>s \<in> set ?sugs. mentions U runId industry table k \<le> sg_currentCount s + sg_historicalCount s)"
  proof (intro allI impI)
    fix k
    assume c: "candidate U defs runId industry table k" and out: "k \<notin> sg_normalized ` set ?sugs"
    from c have k: "k \<noteq> []" "k \<notin> set ?decl" "0 < occurrences U k ?cur + occurrences U k ?hist"
      by (simp_all add: candidate_def mentions_def)
    have out': "k \<notin> sg_normalized ` set (featureSuggestions U ?decl ?cur ?hist)"
      using out unfolding sugs .
    from suggestions_nonempty[OF assms k] obtain s0 where
      s0: "s0 \<in> set (featureSuggestions U ?decl ?cur ?hist)"
      by (cases "featureSuggestions U ?decl ?cur ?hist") auto
    from suggestions_dominate[OF assms k out' s0] have l: "length ?sugs = 5" unfolding sugs by simp
    have "\<forall>s \<in> set ?sugs. mentions U runId industry table k \<le> sg_currentCount s + sg_historicalCount s"
    proof
      fix s assume "s \<in> set ?sugs"
      then have "s \<in> set (featureSuggestions U ?decl ?cur ?hist)" unfolding sugs .
      from suggestions_dominate[OF assms k out' this]
      show "mentions U runId industry table k \<le> sg_currentCount s + sg_historicalCount s"
        by (simp add: mentions_def)
    qed
    with l show "length ?sugs = 5
            \<and> (\<forall>s \<in> set ?sugs. mentions U runId industry table k \<le> sg_currentCount s + sg_historicalCount s)"
      by (rule conjI)
  qed
  from 1 2 3 4 5 6 7 8 show ?thesis by (intro conjI)
qed

subsection \<open>Examples\<close>

lemma occurrences_pos: "(0 < occurrences U k rows) = (\<exists>f \<in> set rows. evidenceKey U f = k)"
  by (auto simp: occurrences_def filter_empty_conv)

lemma distinct_bound:
  assumes "distinct xs" and "set xs \<subseteq> set ks"
  shows "length xs \<le> length ks"
proof -
  have "length xs = card (set xs)" using assms(1) by (simp add: distinct_card)
  also have "\<dots> \<le> card (set ks)" using assms(2) by (simp add: card_mono)
  also have "\<dots> \<le> length ks" by (rule card_length)
  finally show ?thesis .
qed

lemma suggestion_keys:
  assumes U: "respectsAscii U" and keys: "\<forall>f \<in> set cur \<union> set hist. evidenceKey U f \<in> set ks"
  shows "set (map sg_normalized (featureSuggestions U declared cur hist)) \<subseteq> set ks"
proof
  fix k assume "k \<in> set (map sg_normalized (featureSuggestions U declared cur hist))"
  then obtain s where s: "s \<in> set (featureSuggestions U declared cur hist)" "k = sg_normalized s"
    by auto
  from suggestion_facts(5)[OF U s(1)]
  have "0 < occurrences U k cur \<or> 0 < occurrences U k hist" unfolding s(2) by linarith
  then obtain f where "f \<in> set cur \<union> set hist" "evidenceKey U f = k"
    unfolding occurrences_pos by blast
  with keys show "k \<in> set ks" by blast
qed

lemma few_keys_all_suggested:
  assumes U: "respectsAscii U" and keys: "\<forall>f \<in> set cur \<union> set hist. evidenceKey U f \<in> set ks"
    and few: "length ks < 5"
    and k: "k \<noteq> []" "k \<notin> set declared" "0 < occurrences U k cur + occurrences U k hist"
  shows "k \<in> sg_normalized ` set (featureSuggestions U declared cur hist)"
proof (rule ccontr)
  assume out: "k \<notin> sg_normalized ` set (featureSuggestions U declared cur hist)"
  from suggestions_nonempty[OF U k] obtain s0 where
    s0: "s0 \<in> set (featureSuggestions U declared cur hist)"
    by (cases "featureSuggestions U declared cur hist") auto
  from suggestions_dominate[OF U k out s0]
  have 5: "length (featureSuggestions U declared cur hist) = 5" by simp
  from distinct_bound[OF suggestions_distinct[OF U] suggestion_keys[OF U keys], of declared]
  have "length (featureSuggestions U declared cur hist) \<le> length ks" by simp
  with 5 few show False by simp
qed

lemma historical_all:
  assumes "length (filter (historicalWhere runId industry) table) \<le> 300"
  shows "set (historicalFeatures runId industry table) = {f \<in> set table. historicalWhere runId industry f}"
  using assms by (simp add: historicalFeatures_def)

lemma key_demo: "evidenceKey latin (demoObs r n s t i) = normalizeFeature latin (js n)"
  by (simp add: evidenceKey_def demoObs_def demoDefinition_def)

lemma key_names:
  "normalizeFeature latin (js ''alpha'') = js ''alpha''"
  "normalizeFeature latin (js ''beta'') = js ''beta''"
  "normalizeFeature latin (js ''gamma'') = js ''gamma''"
  "normalizeFeature latin (js ''delta'') = js ''delta''"
  by (simp_all add: normalizeFeature_ascii[OF latin_respectsAscii] js_def asciiLower_def
        replaceNonAlnum_def isAlnumPlus_def isSpace_def trim_def)

lemma small_keys:
  "\<forall>f \<in> set smallTable. evidenceKey latin f \<in> set [js ''alpha'', js ''beta'', js ''gamma'', js ''delta'']"
  by (simp add: smallTable_def key_demo key_names)

lemma small_rows:
  "\<forall>f \<in> set (currentFeatures (js ''r1'') smallTable) \<union> set (historicalFeatures (js ''r1'') industry smallTable).
     evidenceKey latin f \<in> set [js ''alpha'', js ''beta'', js ''gamma'', js ''delta'']"
proof
  fix f assume "f \<in> set (currentFeatures (js ''r1'') smallTable) \<union> set (historicalFeatures (js ''r1'') industry smallTable)"
  then have "f \<in> set smallTable" using historical_members[of f] by (auto simp: currentFeatures_def)
  with small_keys show "evidenceKey latin f \<in> set [js ''alpha'', js ''beta'', js ''gamma'', js ''delta'']" by blast
qed

lemma no_declared: "declaredFeatureSet U [] = []"
  by (simp add: declaredFeatureSet_def)

lemma small_gamma_counted:
  "js ''gamma'' \<in> sg_normalized ` set (opportunitySuggestions latin [] (js ''r1'') None smallTable)"
proof -
  let ?g = "demoObs ''h2'' ''gamma'' None 1 ''fintech''"
  have "length (filter (historicalWhere (js ''r1'') None) smallTable) \<le> 300"
    by (rule order_trans[OF length_filter_le]) (simp add: smallTable_def)
  from historical_all[OF this]
  have "?g \<in> set (historicalFeatures (js ''r1'') None smallTable)"
    by (simp add: smallTable_def historicalWhere_def truthy_def demoObs_def js_eq_iff)
  then have "0 < occurrences latin (js ''gamma'') (historicalFeatures (js ''r1'') None smallTable)"
    unfolding occurrences_pos using key_demo key_names(3) by (intro bexI[where x = ?g]) simp_all
  then have p: "0 < occurrences latin (js ''gamma'') (currentFeatures (js ''r1'') smallTable)
                  + occurrences latin (js ''gamma'') (historicalFeatures (js ''r1'') None smallTable)"
    by simp
  have n: "js ''gamma'' \<noteq> []" "js ''gamma'' \<notin> set (declaredFeatureSet latin [])"
    by (simp_all add: no_declared js_def)
  from few_keys_all_suggested[OF latin_respectsAscii small_rows _ n p]
  show ?thesis unfolding opportunitySuggestions_def by simp
qed

lemma sorted_const_snoc:
  assumes "\<forall>x \<in> set xs. x = a" and "a \<le> b"
  shows "sorted (xs @ [b :: int])"
  using assms by (induction xs) (auto simp: sorted_append)

lemma big_historical:
  "historicalFeatures (js ''r1'') (Some (js ''saas'')) bigTable = take 300 bigTable"
proof -
  have f: "filter (historicalWhere (js ''r1'') (Some (js ''saas''))) bigTable = bigTable"
    by (simp add: bigTable_def historicalWhere_def truthy_def demoObs_def js_eq_iff js_Cons_ne)
  have m: "map (\<lambda>f. - fo_createdAt f) bigTable = map (\<lambda>i. - 2) [0..<300] @ [- 1]"
    by (simp add: bigTable_def demoObs_def comp_def)
  have "sorted (map (\<lambda>f. - fo_createdAt f) bigTable)"
    unfolding m by (rule sorted_const_snoc[where a = "- 2"]) auto
  then have "sort_key (\<lambda>f. - fo_createdAt f) bigTable = bigTable" by (rule sort_key_id_if_sorted)
  then show ?thesis by (simp add: historicalFeatures_def f)
qed

lemma big_historical_keys:
  "\<forall>f \<in> set (currentFeatures (js ''r1'') bigTable)
         \<union> set (historicalFeatures (js ''r1'') (Some (js ''saas'')) bigTable).
     evidenceKey latin f \<in> set [js ''alpha'']"
proof -
  have c: "currentFeatures (js ''r1'') bigTable = []"
    by (simp add: currentFeatures_def bigTable_def demoObs_def js_eq_iff)
  have t: "take 300 bigTable =
     map (\<lambda>i. (demoObs ''h1'' ''alpha'' None 2 ''saas'')\<lparr>fo_competitorName := Some (showNat i)\<rparr>) [0..<300]"
    by (simp add: bigTable_def)
  have k: "evidenceKey latin ((demoObs ''h1'' ''alpha'' None 2 ''saas'')\<lparr>fo_competitorName := x\<rparr>) = js ''alpha''" for x
    by (simp add: evidenceKey_def demoObs_def demoDefinition_def key_names)
  show ?thesis unfolding c big_historical t by (simp add: k)
qed

lemma big_alpha_seen:
  "0 < occurrences latin (js ''alpha'') (currentFeatures (js ''r1'') bigTable)
       + occurrences latin (js ''alpha'') (historicalFeatures (js ''r1'') (Some (js ''saas'')) bigTable)"
proof -
  let ?a = "(demoObs ''h1'' ''alpha'' None 2 ''saas'')\<lparr>fo_competitorName := Some (showNat 0)\<rparr>"
  have "?a \<in> set (take 300 bigTable)" by (simp add: bigTable_def)
  then have a: "?a \<in> set (historicalFeatures (js ''r1'') (Some (js ''saas'')) bigTable)"
    by (simp only: big_historical)
  with big_historical_keys have "evidenceKey latin ?a = js ''alpha''" by simp
  with a have "0 < occurrences latin (js ''alpha'') (historicalFeatures (js ''r1'') (Some (js ''saas'')) bigTable)"
    unfolding occurrences_pos by blast
  then show ?thesis by simp
qed

lemma big_suggestions:
  "set (map sg_normalized (opportunitySuggestions latin [] (js ''r1'') (Some (js ''saas'')) bigTable))
     \<subseteq> set [js ''alpha'']"
    "length (opportunitySuggestions latin [] (js ''r1'') (Some (js ''saas'')) bigTable) = 1"
proof -
  let ?sugs = "featureSuggestions latin (declaredFeatureSet latin []) (currentFeatures (js ''r1'') bigTable)
                 (historicalFeatures (js ''r1'') (Some (js ''saas'')) bigTable)"
  have s: "set (map sg_normalized ?sugs) \<subseteq> set [js ''alpha'']"
    by (rule suggestion_keys[OF latin_respectsAscii big_historical_keys])
  then show "set (map sg_normalized (opportunitySuggestions latin [] (js ''r1'') (Some (js ''saas'')) bigTable))
     \<subseteq> set [js ''alpha'']" by (simp only: opportunitySuggestions_def)
  from distinct_bound[OF suggestions_distinct[OF latin_respectsAscii] s]
  have "length ?sugs \<le> 1" by simp
  moreover have "?sugs \<noteq> []"
    by (rule suggestions_nonempty[OF latin_respectsAscii _ _ big_alpha_seen])
       (simp_all add: no_declared js_def)
  ultimately have "length ?sugs = 1" by (cases ?sugs) auto
  then show "length (opportunitySuggestions latin [] (js ''r1'') (Some (js ''saas'')) bigTable) = 1"
    by (simp only: opportunitySuggestions_def)
qed

lemma small_current:
  "currentFeatures (js ''r1'') smallTable
     = [demoObs ''r1'' ''alpha'' (Some ''s1'') 5 ''saas'', demoObs ''r1'' ''beta'' (Some ''s2'') 5 ''saas'']"
  by (simp add: currentFeatures_def smallTable_def demoObs_def js_eq_iff)

lemma small_historical:
  "set (historicalFeatures (js ''r1'') (Some (js ''saas'')) smallTable)
     = {demoObs ''h1'' ''beta'' None 2 ''saas'', demoObs ''h1'' ''delta'' None 2 ''saas''}"
proof -
  have f: "filter (historicalWhere (js ''r1'') (Some (js ''saas''))) smallTable
     = [demoObs ''h1'' ''beta'' None 2 ''saas'', demoObs ''h1'' ''delta'' None 2 ''saas'']"
    by (simp add: smallTable_def historicalWhere_def truthy_def demoObs_def js_eq_iff js_Cons_ne)
  have "length (filter (historicalWhere (js ''r1'') (Some (js ''saas''))) smallTable) \<le> 300"
    unfolding f by simp
  from historical_all[OF this]
  have "set (historicalFeatures (js ''r1'') (Some (js ''saas'')) smallTable)
          = set (filter (historicalWhere (js ''r1'') (Some (js ''saas''))) smallTable)"
    by simp
  then show ?thesis unfolding f by simp
qed

lemma small_counts:
  "0 < occurrences latin (js ''alpha'') (currentFeatures (js ''r1'') smallTable)"
  "\<not> 0 < occurrences latin (js ''delta'') (currentFeatures (js ''r1'') smallTable)"
  "0 < occurrences latin (js ''delta'') (historicalFeatures (js ''r1'') (Some (js ''saas'')) smallTable)"
  "\<not> 0 < occurrences latin (js ''gamma'') (currentFeatures (js ''r1'') smallTable)"
  "\<not> 0 < occurrences latin (js ''gamma'') (historicalFeatures (js ''r1'') (Some (js ''saas'')) smallTable)"
  unfolding occurrences_pos small_current small_historical
  by (simp_all add: key_demo key_names js_eq_iff)

text \<open>
  A run with the features alpha and beta, on a table where beta and delta were seen in an
  earlier run of the same industry and gamma in a run of another industry: alpha has a
  suggestion with confidence 0.7, delta one with confidence 0.55, gamma none.
\<close>

theorem opportunity_insights_witness:
  "(js ''alpha'', 0.7)
     \<in> (\<lambda>s. (sg_normalized s, f_confidence (the (opportunityInsight s)))) `
         set (opportunitySuggestions latin [] (js ''r1'') (Some (js ''saas'')) smallTable)
   \<and> (js ''delta'', 0.55)
     \<in> (\<lambda>s. (sg_normalized s, f_confidence (the (opportunityInsight s)))) `
         set (opportunitySuggestions latin [] (js ''r1'') (Some (js ''saas'')) smallTable)
   \<and> js ''gamma'' \<notin> sg_normalized ` set (opportunitySuggestions latin [] (js ''r1'') (Some (js ''saas'')) smallTable)
   \<and> length (opportunityFindings latin [] (js ''r1'') (Some (js ''saas'')) smallTable) \<le> 5"
proof -
  let ?sugs = "opportunitySuggestions latin [] (js ''r1'') (Some (js ''saas'')) smallTable"
  note main = opportunity_insights[OF latin_respectsAscii, where runId = "js ''r1''"
      and industry = "Some (js ''saas'')" and table = smallTable and defs = "[]"]
  note len = main[THEN conjunct2, THEN conjunct2, THEN conjunct1]
  note each = main[THEN conjunct2, THEN conjunct2, THEN conjunct2, THEN conjunct2, THEN conjunct2,
                   THEN conjunct2, THEN conjunct1, rule_format]
  have n: "js ''alpha'' \<noteq> []" "js ''delta'' \<noteq> []"
    "js ''alpha'' \<notin> set (declaredFeatureSet latin [])" "js ''delta'' \<notin> set (declaredFeatureSet latin [])"
    by (simp_all add: no_declared js_def)
  have "js ''alpha'' \<in> sg_normalized ` set ?sugs"
    unfolding opportunitySuggestions_def
    by (rule few_keys_all_suggested[OF latin_respectsAscii small_rows _ n(1,3)])
       (simp_all add: small_counts)
  then obtain a where a: "a \<in> set ?sugs" "sg_normalized a = js ''alpha''" by auto
  from each[OF a(1)] have "f_confidence (the (opportunityInsight a)) = 0.7"
    by (simp add: a(2) small_counts)
  with a have 1: "(js ''alpha'', 0.7)
     \<in> (\<lambda>s. (sg_normalized s, f_confidence (the (opportunityInsight s)))) ` set ?sugs"
    by (intro image_eqI[where x = a]) simp_all
  have "js ''delta'' \<in> sg_normalized ` set ?sugs"
    unfolding opportunitySuggestions_def
    by (rule few_keys_all_suggested[OF latin_respectsAscii small_rows _ n(2,4)])
       (simp_all add: small_counts)
  then obtain b where b: "b \<in> set ?sugs" "sg_normalized b = js ''delta''" by auto
  from each[OF b(1)] have "f_confidence (the (opportunityInsight b)) = 0.55"
    by (simp add: b(2) small_counts)
  with b have 2: "(js ''delta'', 0.55)
     \<in> (\<lambda>s. (sg_normalized s, f_confidence (the (opportunityInsight s)))) ` set ?sugs"
    by (intro image_eqI[where x = b]) simp_all
  have 3: "js ''gamma'' \<notin> sg_normalized ` set ?sugs"
  proof
    assume "js ''gamma'' \<in> sg_normalized ` set ?sugs"
    then obtain g where g: "g \<in> set ?sugs" "sg_normalized g = js ''gamma''" by auto
    from each[OF g(1)] have "candidate latin [] (js ''r1'') (Some (js ''saas'')) smallTable (js ''gamma'')"
      by (simp add: g(2))
    then show False using small_counts(4,5) by (simp add: candidate_def mentions_def)
  qed
  from 1 2 3 len show ?thesis by (intro conjI)
qed

text \<open>
  Two earlier runs of the same industry with 301 rows: the feature of the earlier of the
  two runs is not declared and was seen in that run, yet it has no suggestion, while one
  finding only is emitted. And for a project without an industry, a feature seen only in a
  run of the industry fintech has a suggestion.
\<close>

theorem historical_rows_counterexample:
  "length bigTable = 301 \<and> fo_runId ` set bigTable = {js ''h0'', js ''h1''}
   \<and> historicalWhere (js ''r1'') (Some (js ''saas'')) (last bigTable)
   \<and> evidenceKey latin (last bigTable) = js ''beta''
   \<and> js ''beta'' \<notin> sg_normalized ` set (opportunitySuggestions latin [] (js ''r1'') (Some (js ''saas'')) bigTable)
   \<and> length (opportunityFindings latin [] (js ''r1'') (Some (js ''saas'')) bigTable) = 1
   \<and> fo_industry (last smallTable) = Some (js ''fintech'')
   \<and> evidenceKey latin (last smallTable) = js ''gamma''
   \<and> js ''gamma'' \<in> sg_normalized ` set (opportunitySuggestions latin [] (js ''r1'') None smallTable)"
proof -
  have 1: "length bigTable = 301" by (simp add: bigTable_def)
  have "fo_runId ` set bigTable = insert (js ''h0'') ((\<lambda>i. js ''h1'') ` {0..<300::nat})"
    by (simp add: bigTable_def demoObs_def image_image)
  then have 2: "fo_runId ` set bigTable = {js ''h0'', js ''h1''}"
    by (simp add: image_constant_conv)
  have l: "last bigTable = demoObs ''h0'' ''beta'' None 1 ''saas''" by (simp add: bigTable_def)
  have 3: "historicalWhere (js ''r1'') (Some (js ''saas'')) (last bigTable)"
    unfolding l by (simp add: historicalWhere_def demoObs_def truthy_def js_eq_iff)
  have 4: "evidenceKey latin (last bigTable) = js ''beta''"
    unfolding l by (simp add: key_demo key_names)
  have "js ''beta'' \<notin> set [js ''alpha'']" by (simp add: js_eq_iff)
  with big_suggestions(1)
  have 5: "js ''beta'' \<notin> sg_normalized ` set (opportunitySuggestions latin [] (js ''r1'') (Some (js ''saas'')) bigTable)"
    by auto
  have "length (map Some (opportunityFindings latin [] (js ''r1'') (Some (js ''saas'')) bigTable)) = 1"
    unfolding findings_of_suggestions[OF latin_respectsAscii] using big_suggestions(2) by simp
  then have 6: "length (opportunityFindings latin [] (js ''r1'') (Some (js ''saas'')) bigTable) = 1"
    by simp
  have ls: "last smallTable = demoObs ''h2'' ''gamma'' None 1 ''fintech''" by (simp add: smallTable_def)
  have 7: "fo_industry (last smallTable) = Some (js ''fintech'')" unfolding ls by (simp add: demoObs_def)
  have 8: "evidenceKey latin (last smallTable) = js ''gamma''" unfolding ls by (simp add: key_demo key_names)
  from 1 2 3 4 5 6 7 8 small_gamma_counted show ?thesis by (intro conjI)
qed

end
